theory Spec2Isabelle
  imports Main "HOL-Library.Sublist" "HOL-Library.AList"
begin

section \<open>Strings and the string primitives the program uses\<close>

text \<open>
  A JavaScript string is a sequence of code units; it is modelled as a \<^typ>\<open>string\<close>, one
  \<^typ>\<open>char\<close> per code unit. The program compares code units only with ASCII characters
  (the dollar sign, the line-ending characters, the HTML specials and the characters of the
  placeholder pattern) and copies every other code unit unchanged.
\<close>

definition LF :: char where
  "LF = CHR 0x0A"

definition CR :: char where
  "CR = CHR 0x0D"

text \<open>
  \<open>s.slice(a, b)\<close> and \<open>s.slice(a)\<close> for non-negative arguments: both ends are clamped to
  the length, and an end before the start gives the empty string.
\<close>

definition slice :: "string \<Rightarrow> nat \<Rightarrow> nat \<Rightarrow> string" where
  "slice s a b = take (b - a) (drop a s)"

definition slice_from :: "string \<Rightarrow> nat \<Rightarrow> string" where
  "slice_from s a = drop a s"

text \<open>
  \<open>s.replace(/pat/g, rep)\<close> for a pattern that is a literal, non-empty sequence of
  characters and a replacement without dollar patterns: the string is scanned from the left,
  every occurrence found is replaced and the scan continues behind it.
\<close>

function replaceAll :: "string \<Rightarrow> string \<Rightarrow> string \<Rightarrow> string" where
  "replaceAll pat rep [] = []"
| "replaceAll pat rep (c # s) =
     (if pat \<noteq> [] \<and> take (length pat) (c # s) = pat
      then rep @ replaceAll pat rep (drop (length pat) (c # s))
      else c # replaceAll pat rep s)"
  by pat_completeness auto
termination
  by (relation "measure (\<lambda>(pat, rep, s). length s)") auto

section \<open>The formula pattern\<close>

text \<open>
  The regular expression \<^verbatim>\<open>/\$\$([^$]+)\$\$|\$([^$]+)\$/g\<close>. A greedy \<^verbatim>\<open>[^$]+\<close> takes the
  longest run of characters other than the dollar sign; giving characters back cannot help,
  because the pattern continues with a dollar sign and a character given back is not one. So
  each alternative matches at a position in at most one way.
\<close>

definition not_dollar :: "char \<Rightarrow> bool" where
  "not_dollar c = (c \<noteq> CHR ''$'')"

text \<open>The first alternative at the start of \<open>s\<close>: the matched text and group 1.\<close>

definition alt_block :: "string \<Rightarrow> (string \<times> string) option" where
  "alt_block s =
     (if take 2 s = ''$$'' then
        (let body = takeWhile not_dollar (drop 2 s);
             rest = dropWhile not_dollar (drop 2 s)
         in if body \<noteq> [] \<and> take 2 rest = ''$$''
            then Some (''$$'' @ body @ ''$$'', body) else None)
      else None)"

text \<open>The second alternative at the start of \<open>s\<close>: the matched text and group 2.\<close>

definition alt_inline :: "string \<Rightarrow> (string \<times> string) option" where
  "alt_inline s =
     (if take 1 s = ''$'' then
        (let body = takeWhile not_dollar (drop 1 s);
             rest = dropWhile not_dollar (drop 1 s)
         in if body \<noteq> [] \<and> take 1 rest = ''$''
            then Some (''$'' @ body @ ''$'', body) else None)
      else None)"

text \<open>
  A successful \<open>exec\<close> result: \<open>match.index\<close>, \<open>match[0]\<close>, \<open>match[1]\<close> and \<open>match[2]\<close>. The
  group of the alternative that did not take part is \<open>undefined\<close>, here \<open>None\<close>.
\<close>

record rx_match =
  index :: nat
  whole :: string
  grp1 :: "string option"
  grp2 :: "string option"

text \<open>The alternatives are tried in the order written, the block form first.\<close>

definition match_here :: "nat \<Rightarrow> string \<Rightarrow> rx_match option" where
  "match_here i s =
     (case alt_block s of
        Some (w, b) \<Rightarrow> Some \<lparr>index = i, whole = w, grp1 = Some b, grp2 = None\<rparr>
      | None \<Rightarrow>
         (case alt_inline s of
            Some (w, b) \<Rightarrow> Some \<lparr>index = i, whole = w, grp1 = None, grp2 = Some b\<rparr>
          | None \<Rightarrow> None))"

text \<open>The search tries every start position from the left, the end of the string included.\<close>

fun search :: "nat \<Rightarrow> string \<Rightarrow> rx_match option" where
  "search i [] = match_here i []"
| "search i (c # s) =
     (case match_here i (c # s) of
        Some m \<Rightarrow> Some m
      | None \<Rightarrow> search (Suc i) s)"

text \<open>\<open>regex.exec(s)\<close> with the expression's \<open>lastIndex\<close> at the given value.\<close>

definition regex_exec :: "string \<Rightarrow> nat \<Rightarrow> rx_match option" where
  "regex_exec s lastIndex =
     (if length s < lastIndex then None else search lastIndex (drop lastIndex s))"

lemma alt_block_Some:
  assumes "alt_block s = Some (w, b)"
  shows "w = ''$$'' @ b @ ''$$'' \<and> b \<noteq> [] \<and> take (length w) s = w \<and> length w \<le> length s
         \<and> (\<forall>c \<in> set b. c \<noteq> CHR ''$'')"
proof -
  define r where "r = drop 2 s"
  define t where "t = dropWhile not_dollar r"
  from assms have t2: "take 2 s = ''$$''"
    by (auto simp: alt_block_def split: if_splits)
  from assms t2 have b: "b = takeWhile not_dollar r" and ne: "b \<noteq> []"
    and r2: "take 2 t = ''$$''" and w: "w = ''$$'' @ b @ ''$$''"
    by (auto simp: alt_block_def Let_def r_def t_def split: if_splits)
  have "s = take 2 s @ r" by (simp add: r_def)
  moreover have "r = b @ t" by (simp add: b t_def)
  moreover have "t = take 2 t @ drop 2 t" by simp
  ultimately have eq: "s = w @ drop 2 t"
    using t2 r2 w by simp
  have "take (length w) (w @ drop 2 t) = w \<and> length w \<le> length (w @ drop 2 t)"
    by simp
  with eq have "take (length w) s = w \<and> length w \<le> length s" by simp
  moreover have "\<forall>c \<in> set b. c \<noteq> CHR ''$''"
    using set_takeWhileD[of _ not_dollar r] by (auto simp: b not_dollar_def)
  ultimately show ?thesis using w ne by simp
qed

lemma alt_inline_Some:
  assumes "alt_inline s = Some (w, b)"
  shows "w = ''$'' @ b @ ''$'' \<and> b \<noteq> [] \<and> take (length w) s = w \<and> length w \<le> length s
         \<and> (\<forall>c \<in> set b. c \<noteq> CHR ''$'')"
proof -
  define r where "r = drop 1 s"
  define t where "t = dropWhile not_dollar r"
  from assms have t1: "take 1 s = ''$''"
    by (auto simp: alt_inline_def split: if_splits)
  from assms t1 have b: "b = takeWhile not_dollar r" and ne: "b \<noteq> []"
    and r1: "take 1 t = ''$''" and w: "w = ''$'' @ b @ ''$''"
    by (auto simp: alt_inline_def Let_def r_def t_def split: if_splits)
  from t1 have s: "s = ''$'' @ r"
    by (cases s) (simp_all add: r_def)
  have r: "r = b @ t" by (simp add: b t_def)
  from r1 have t: "t = ''$'' @ drop 1 t"
    by (cases t) simp_all
  have eq: "s = w @ drop 1 t"
    by (subst s, subst r, subst t, subst w) simp
  have "take (length w) (w @ drop 1 t) = w \<and> length w \<le> length (w @ drop 1 t)"
    by simp
  with eq have "take (length w) s = w \<and> length w \<le> length s" by simp
  moreover have "\<forall>c \<in> set b. c \<noteq> CHR ''$''"
    using set_takeWhileD[of _ not_dollar r] by (auto simp: b not_dollar_def)
  ultimately show ?thesis using w ne by simp
qed

lemma match_here_Some:
  assumes "match_here i s = Some m"
  shows "index m = i \<and> take (length (whole m)) s = whole m \<and> length (whole m) \<le> length s
         \<and> 3 \<le> length (whole m)"
proof (cases "alt_block s")
  case (Some p)
  obtain w b where p: "p = (w, b)" by (cases p)
  from assms Some p have m: "index m = i" "whole m = w"
    by (auto simp: match_here_def)
  note f = alt_block_Some[OF Some[unfolded p]]
  from f have "w = ''$$'' @ b @ ''$$''" and "b \<noteq> []" by blast+
  then have "3 \<le> length w" by (cases b) simp_all
  moreover from f have "take (length w) s = w" and "length w \<le> length s" by blast+
  ultimately show ?thesis by (simp add: m)
next
  case None
  show ?thesis
  proof (cases "alt_inline s")
    case (Some p)
    obtain w b where p: "p = (w, b)" by (cases p)
    from assms None Some p have m: "index m = i" "whole m = w"
      by (auto simp: match_here_def)
    note f = alt_inline_Some[OF Some[unfolded p]]
    from f have "w = ''$'' @ b @ ''$''" and "b \<noteq> []" by blast+
    then have "3 \<le> length w" by (cases b) simp_all
    moreover from f have "take (length w) s = w" and "length w \<le> length s" by blast+
    ultimately show ?thesis by (simp add: m)
  next
    case inl: None
    from assms None inl show ?thesis by (simp add: match_here_def)
  qed
qed

lemma search_Some:
  "search i s = Some m \<Longrightarrow>
     i \<le> index m \<and> index m + length (whole m) \<le> i + length s \<and> 3 \<le> length (whole m)
     \<and> take (length (whole m)) (drop (index m - i) s) = whole m"
proof (induction i s rule: search.induct)
  case (1 i)
  from match_here_Some[of i "[]" m] 1 show ?case by auto
next
  case (2 i c s)
  show ?case
  proof (cases "match_here i (c # s)")
    case None
    with 2 have "search (Suc i) s = Some m" by simp
    from 2(1)[OF None this] have ih: "Suc i \<le> index m"
      "index m + length (whole m) \<le> Suc i + length s" "3 \<le> length (whole m)"
      "take (length (whole m)) (drop (index m - Suc i) s) = whole m"
      by simp_all
    from ih(1) have "index m - i = Suc (index m - Suc i)" by simp
    with ih show ?thesis by simp
  next
    case (Some m')
    with 2 have "m' = m" by simp
    with match_here_Some[OF Some] show ?thesis by auto
  qed
qed

lemma regex_exec_Some:
  assumes "regex_exec s lastIndex = Some m"
  shows "lastIndex \<le> index m" and "index m + length (whole m) \<le> length s"
    and "3 \<le> length (whole m)"
    and "slice s (index m) (index m + length (whole m)) = whole m"
proof -
  from assms have le: "lastIndex \<le> length s" and se: "search lastIndex (drop lastIndex s) = Some m"
    by (auto simp: regex_exec_def split: if_splits)
  from search_Some[OF se] le show "lastIndex \<le> index m"
    and "index m + length (whole m) \<le> length s" and "3 \<le> length (whole m)"
    by auto
  from search_Some[OF se] le show "slice s (index m) (index m + length (whole m)) = whole m"
    by (auto simp: slice_def)
qed

text \<open>
  The loop \<^verbatim>\<open>while ((match = regex.exec(s)) !== null)\<close>: the expression keeps its own
  \<open>lastIndex\<close>, which \<open>exec\<close> sets to the end of each match, so the sequence of matches the
  loop sees depends on the string alone.
\<close>

function exec_all :: "string \<Rightarrow> nat \<Rightarrow> rx_match list" where
  "exec_all s lastIndex =
     (case regex_exec s lastIndex of
        None \<Rightarrow> []
      | Some m \<Rightarrow> m # exec_all s (index m + length (whole m)))"
  by pat_completeness auto
termination
proof (relation "measure (\<lambda>(s, lastIndex). Suc (length s) - lastIndex)")
  show "wf (measure (\<lambda>(s, lastIndex). Suc (length s) - lastIndex))" by simp
next
  fix s lastIndex m
  assume "regex_exec s lastIndex = Some m"
  from regex_exec_Some(1-3)[OF this]
  show "((s, index m + length (whole m)), (s, lastIndex))
          \<in> measure (\<lambda>(s, lastIndex). Suc (length s) - lastIndex)"
    by simp
qed

declare exec_all.simps [simp del]

text \<open>
  \<open>parseForDisplay\<close>, \<open>generateDocx\<close> and \<open>handleCopy\<close> run the same loop over the matches:
  each turn takes the text between the end of the previous match and \<open>match.index\<close>, then
  the match, and sets \<open>lastIndex = match.index + match[0].length\<close>; behind the loop comes
  the text from \<open>lastIndex\<close> to the end. The spans are what this loop hands to its body, in
  order. The three functions below are modelled with their own loops and each is shown to be
  a function of the spans (lemmas \<open>items_loop_spans\<close>, \<open>copy_loop_spans\<close>,
  \<open>display_loop_spans\<close>).
\<close>

datatype span = Text string | Formula rx_match

fun segment_loop :: "string \<Rightarrow> nat \<Rightarrow> rx_match list \<Rightarrow> span list" where
  "segment_loop input lastIndex [] = [Text (slice_from input lastIndex)]"
| "segment_loop input lastIndex (m # ms) =
     Text (slice input lastIndex (index m)) # Formula m
       # segment_loop input (index m + length (whole m)) ms"

definition segment :: "string \<Rightarrow> span list" where
  "segment input = segment_loop input 0 (exec_all input 0)"

text \<open>The part of the input a span stands for: the text itself, or \<open>match[0]\<close>.\<close>

fun span_source :: "span \<Rightarrow> string" where
  "span_source (Text t) = t"
| "span_source (Formula m) = whole m"

section \<open>The external converters and the use of a match\<close>

text \<open>
  \<open>latexToMathML\<close> (Temml) and \<open>mathmlToOmml\<close> (mathml2omml) are libraries outside the
  repository. Each is a parameter of the model: a function that returns \<open>None\<close> where the
  library throws. Nothing else is assumed about them.
\<close>

type_synonym renderer = "string \<Rightarrow> bool \<Rightarrow> string option"

type_synonym bridge = "string \<Rightarrow> string option"

text \<open>JavaScript truthiness of a group and the operator \<open>||\<close> on two groups.\<close>

definition truthy :: "string option \<Rightarrow> bool" where
  "truthy v = (case v of None \<Rightarrow> False | Some x \<Rightarrow> x \<noteq> [])"

definition js_or :: "string option \<Rightarrow> string option \<Rightarrow> string option" where
  "js_or a b = (if truthy a then a else b)"

text \<open>
  \<open>latexToMathML(match[1] || match[2], !!match[1])\<close> inside \<open>try\<close>. Were both groups
  \<open>undefined\<close> the call would receive \<open>undefined\<close>; the model treats that as a throw. Lemma
  \<open>exec_all_groups\<close> below shows that no match of the pattern gets there.
\<close>

definition latexToMathML_of :: "renderer \<Rightarrow> rx_match \<Rightarrow> string option" where
  "latexToMathML_of render m =
     (case js_or (grp1 m) (grp2 m) of
        None \<Rightarrow> None
      | Some latex \<Rightarrow> render latex (truthy (grp1 m)))"

section \<open>Escaping\<close>

definition escapeHtml :: "string \<Rightarrow> string" where
  "escapeHtml text =
     replaceAll ''>'' ''&gt;'' (replaceAll ''<'' ''&lt;'' (replaceAll ''&'' ''&amp;'' text))"

definition escapeAndFormat :: "string \<Rightarrow> string" where
  "escapeAndFormat text =
     replaceAll [CR] ''<br>''
       (replaceAll [LF] ''<br>''
         (replaceAll [CR, LF] ''<br>'' (escapeHtml text)))"

definition DQ :: char where
  "DQ = CHR 0x22"

text \<open>The value written into the \<open>data-latex\<close> attribute (line 50 of \<open>App.tsx\<close>).\<close>

definition escapedLatex :: "string \<Rightarrow> string" where
  "escapedLatex latex = replaceAll [DQ] ''&quot;'' (escapeHtml latex)"

text \<open>The unescaping that \<open>handleContextMenu\<close> applies to the attribute value.\<close>

definition contextMenuLatex :: "string \<Rightarrow> string" where
  "contextMenuLatex latex =
     replaceAll ''&amp;'' ''&''
       (replaceAll ''&gt;'' ''>''
         (replaceAll ''&lt;'' ''<''
           (replaceAll ''&quot;'' [DQ] latex)))"

section \<open>The preview: \<open>parseForDisplay\<close>\<close>

definition bool_text :: "bool \<Rightarrow> string" where
  "bool_text b = (if b then ''true'' else ''false'')"

text \<open>The body of the \<open>try\<close>/\<open>catch\<close> of \<open>parseForDisplay\<close> for one match.\<close>

definition display_formula :: "renderer \<Rightarrow> rx_match \<Rightarrow> string" where
  "display_formula render m =
     (case js_or (grp1 m) (grp2 m) of
        None \<Rightarrow> ''<span class='' @ [DQ] @ ''error'' @ [DQ] @ ''>'' @ escapeHtml (whole m) @ ''</span>''
      | Some latex \<Rightarrow>
         (case render latex (truthy (grp1 m)) of
            None \<Rightarrow>
              ''<span class='' @ [DQ] @ ''error'' @ [DQ] @ ''>'' @ escapeHtml (whole m) @ ''</span>''
          | Some mathml \<Rightarrow>
              ''<span class='' @ [DQ] @ ''math-formula'' @ [DQ]
                @ '' data-latex='' @ [DQ] @ escapedLatex latex @ [DQ]
                @ '' data-block='' @ [DQ] @ bool_text (truthy (grp1 m)) @ [DQ]
                @ ''>'' @ mathml @ ''</span>''))"

fun display_loop :: "renderer \<Rightarrow> string \<Rightarrow> string \<Rightarrow> nat \<Rightarrow> rx_match list \<Rightarrow> string" where
  "display_loop render input result lastIndex [] =
     result @ escapeAndFormat (slice_from input lastIndex)"
| "display_loop render input result lastIndex (m # ms) =
     (let textBefore = slice input lastIndex (index m);
          result1 = result @ escapeAndFormat textBefore;
          result2 = result1 @ display_formula render m
      in display_loop render input result2 (index m + length (whole m)) ms)"

definition parseForDisplay :: "renderer \<Rightarrow> string \<Rightarrow> string" where
  "parseForDisplay render input = display_loop render input [] 0 (exec_all input 0)"

text \<open>What \<open>parseForDisplay\<close> appends for one span.\<close>

fun display_piece :: "renderer \<Rightarrow> span \<Rightarrow> string" where
  "display_piece render (Text t) = escapeAndFormat t"
| "display_piece render (Formula m) = display_formula render m"

section \<open>Copying the whole document: \<open>handleCopy\<close>\<close>

text \<open>The function returns the text that \<open>handleCopy\<close> writes to the clipboard.\<close>

fun copy_loop :: "renderer \<Rightarrow> string \<Rightarrow> string \<Rightarrow> nat \<Rightarrow> rx_match list \<Rightarrow> string" where
  "copy_loop render input result lastIndex [] = result @ slice_from input lastIndex"
| "copy_loop render input result lastIndex (m # ms) =
     (let result1 = result @ slice input lastIndex (index m);
          result2 = result1 @ (case latexToMathML_of render m of
                                 Some mathml \<Rightarrow> mathml
                               | None \<Rightarrow> whole m)
      in copy_loop render input result2 (index m + length (whole m)) ms)"

definition handleCopy :: "renderer \<Rightarrow> string \<Rightarrow> string" where
  "handleCopy render input = copy_loop render input [] 0 (exec_all input 0)"

text \<open>What \<open>handleCopy\<close> appends for one span.\<close>

fun copy_piece :: "renderer \<Rightarrow> span \<Rightarrow> string" where
  "copy_piece render (Text t) = t"
| "copy_piece render (Formula m) =
     (case latexToMathML_of render m of Some mathml \<Rightarrow> mathml | None \<Rightarrow> whole m)"

section \<open>Export: \<open>generateDocx\<close>\<close>

subsection \<open>Content items\<close>

datatype content_item = TextItem string | MathItem string bool

text \<open>The \<open>try\<close>/\<open>catch\<close> of lines 101 to 108: both conversions, or the matched text.\<close>

definition convert_item :: "renderer \<Rightarrow> bridge \<Rightarrow> rx_match \<Rightarrow> content_item" where
  "convert_item render mathmlToOmml m =
     (case latexToMathML_of render m of
        None \<Rightarrow> TextItem (whole m)
      | Some mathml \<Rightarrow>
         (case mathmlToOmml mathml of
            None \<Rightarrow> TextItem (whole m)
          | Some omml \<Rightarrow> MathItem omml (truthy (grp1 m))))"

fun items_loop ::
  "renderer \<Rightarrow> bridge \<Rightarrow> string \<Rightarrow> content_item list \<Rightarrow> nat \<Rightarrow> rx_match list \<Rightarrow> content_item list"
where
  "items_loop render mathmlToOmml text items lastIndex [] =
     (let textAfter = slice_from text lastIndex
      in if textAfter \<noteq> [] then items @ [TextItem textAfter] else items)"
| "items_loop render mathmlToOmml text items lastIndex (m # ms) =
     (let textBefore = slice text lastIndex (index m);
          items1 = (if textBefore \<noteq> [] then items @ [TextItem textBefore] else items);
          items2 = items1 @ [convert_item render mathmlToOmml m]
      in items_loop render mathmlToOmml text items2 (index m + length (whole m)) ms)"

text \<open>The items \<open>generateDocx\<close> pushes for one span; an empty text is not pushed.\<close>

fun span_items :: "renderer \<Rightarrow> bridge \<Rightarrow> span \<Rightarrow> content_item list" where
  "span_items render mathmlToOmml (Text t) = (if t \<noteq> [] then [TextItem t] else [])"
| "span_items render mathmlToOmml (Formula m) = [convert_item render mathmlToOmml m]"

text \<open>Line 85: the line endings are normalised before the text is scanned.\<close>

definition normalizeLineEndings :: "string \<Rightarrow> string" where
  "normalizeLineEndings input = replaceAll [CR] [LF] (replaceAll [CR, LF] [LF] input)"

definition parse_items :: "renderer \<Rightarrow> bridge \<Rightarrow> string \<Rightarrow> content_item list" where
  "parse_items render mathmlToOmml text =
     items_loop render mathmlToOmml text [] 0 (exec_all text 0)"

subsection \<open>Paragraphs\<close>

datatype alignment = LEFT | CENTER

datatype text_run = TextRun string

record Paragraph =
  children :: "text_run list"
  alignment :: alignment

datatype paragraph_item = PText string | Placeholder string

text \<open>
  The mutable variables of the second half of \<open>generateDocx\<close>. \<open>mathPlaceholders\<close> is a
  JavaScript \<open>Map\<close>, which keeps its entries in insertion order; \<open>Map.set\<close> is
  \<^const>\<open>AList.update\<close>: a new key is appended, an existing key keeps its place.
\<close>

record builder =
  paragraphs :: "Paragraph list"
  mathPlaceholders :: "(string \<times> string) list"
  placeholderIndex :: nat
  currentParagraphItems :: "paragraph_item list"

definition builder_init :: builder where
  "builder_init =
     \<lparr>paragraphs = [], mathPlaceholders = [], placeholderIndex = 0, currentParagraphItems = []\<rparr>"

definition item_run :: "paragraph_item \<Rightarrow> text_run" where
  "item_run item = (case item of PText v \<Rightarrow> TextRun v | Placeholder i \<Rightarrow> TextRun i)"

definition flushParagraph :: "alignment \<Rightarrow> builder \<Rightarrow> builder" where
  "flushParagraph al st =
     (if currentParagraphItems st = [] then st
      else
        (let cs = map item_run (currentParagraphItems st);
             st1 = (if 0 < length cs
                    then st\<lparr>paragraphs := paragraphs st @ [\<lparr>children = cs, alignment = al\<rparr>]\<rparr>
                    else st)
         in st1\<lparr>currentParagraphItems := []\<rparr>))"

text \<open>The decimal text of a number, as the template literal prints \<open>placeholderIndex\<close>.\<close>

definition digit_char :: "nat \<Rightarrow> char" where
  "digit_char d = ''0123456789'' ! d"

function show_nat :: "nat \<Rightarrow> string" where
  "show_nat n = (if n < 10 then [digit_char n] else show_nat (n div 10) @ [digit_char (n mod 10)])"
  by pat_completeness auto
termination
  by (relation "measure id") auto

declare show_nat.simps [simp del]

definition placeholder_prefix :: string where
  "placeholder_prefix = ''__MATH_PLACEHOLDER_''"

definition placeholder_token :: "nat \<Rightarrow> string" where
  "placeholder_token n = placeholder_prefix @ show_nat n @ ''__''"

text \<open>
  \<open>value.split(/\n\n+/)\<close>: the string is cut at every maximal run of two or more line
  feeds; the pieces before the first and after the last run are kept when empty.
  \<open>cur\<close> is the piece being collected.
\<close>

function split_paragraphs :: "string \<Rightarrow> string \<Rightarrow> string list" where
  "split_paragraphs cur [] = [cur]"
| "split_paragraphs cur (c # s) =
     (if c = LF \<and> take 1 s = [LF]
      then cur # split_paragraphs [] (dropWhile (\<lambda>x. x = LF) s)
      else split_paragraphs (cur @ [c]) s)"
  by pat_completeness auto
termination
  by (relation "measure (\<lambda>(cur, s). length s)")
     (auto simp: length_dropWhile_le less_Suc_eq_le)

text \<open>The inner loop over the parts of a text item (lines 169 to 182).\<close>

definition part_step :: "nat \<Rightarrow> string \<Rightarrow> builder \<Rightarrow> builder" where
  "part_step i part st =
     (let st1 = (if 0 < i then flushParagraph LEFT st else st);
          cleanedText = replaceAll [LF] '' '' part
      in if cleanedText \<noteq> []
         then st1\<lparr>currentParagraphItems := currentParagraphItems st1 @ [PText cleanedText]\<rparr>
         else st1)"

fun parts_loop :: "nat \<Rightarrow> string list \<Rightarrow> builder \<Rightarrow> builder" where
  "parts_loop i [] st = st"
| "parts_loop i (part # parts) st = parts_loop (Suc i) parts (part_step i part st)"

text \<open>One turn of the loop over the items (lines 144 to 184).\<close>

fun item_step :: "content_item \<Rightarrow> builder \<Rightarrow> builder" where
  "item_step (MathItem omml isBlock) st =
     (if isBlock then
        (let st1 = flushParagraph LEFT st;
             placeholder = placeholder_token (placeholderIndex st1);
             st2 = st1\<lparr>mathPlaceholders := AList.update placeholder omml (mathPlaceholders st1)\<rparr>;
             st3 = st2\<lparr>placeholderIndex := placeholderIndex st2 + 1\<rparr>
         in st3\<lparr>paragraphs := paragraphs st3
                   @ [\<lparr>children = [TextRun placeholder], alignment = CENTER\<rparr>]\<rparr>)
      else
        (let placeholder = placeholder_token (placeholderIndex st);
             st2 = st\<lparr>mathPlaceholders := AList.update placeholder omml (mathPlaceholders st)\<rparr>;
             st3 = st2\<lparr>placeholderIndex := placeholderIndex st2 + 1\<rparr>
         in st3\<lparr>currentParagraphItems := currentParagraphItems st3 @ [Placeholder placeholder]\<rparr>))"
| "item_step (TextItem v) st = parts_loop 0 (split_paragraphs [] v) st"

fun items_steps :: "content_item list \<Rightarrow> builder \<Rightarrow> builder" where
  "items_steps [] st = st"
| "items_steps (item # items) st = items_steps items (item_step item st)"

text \<open>Lines 119 to 187: the paragraphs and the placeholder map built from the items.\<close>

definition build_paragraphs :: "content_item list \<Rightarrow> builder" where
  "build_paragraphs items = flushParagraph LEFT (items_steps items builder_init)"

definition assemble :: "renderer \<Rightarrow> bridge \<Rightarrow> string \<Rightarrow> builder" where
  "assemble render mathmlToOmml input =
     build_paragraphs (parse_items render mathmlToOmml (normalizeLineEndings input))"

subsection \<open>Substituting the placeholders in \<open>word/document.xml\<close>\<close>

text \<open>
  The expression built at line 217, \<^verbatim>\<open><w:r[^>]*>\s*<w:t[^>]*>TOKEN</w:t>\s*</w:r>\<close>. Each
  starred class is followed by a character outside the class, so the greedy match is the only
  one. The tokens consist of letters, digits and underscores, which the expression reads
  literally. \<open>\s\<close> is taken over the code units below 256.
\<close>

definition is_space :: "char \<Rightarrow> bool" where
  "is_space c = (c \<in> set [CHR 0x09, CHR 0x0A, CHR 0x0B, CHR 0x0C, CHR 0x0D, CHR 0x20, CHR 0xA0])"

definition expect :: "string \<Rightarrow> string \<Rightarrow> string option" where
  "expect lit s = (if take (length lit) s = lit then Some (drop (length lit) s) else None)"

definition not_gt :: "char \<Rightarrow> bool" where
  "not_gt c = (c \<noteq> CHR ''>'')"

text \<open>A match of the expression at the start of \<open>s\<close>: what is left of \<open>s\<close> behind it.\<close>

definition match_run :: "string \<Rightarrow> string \<Rightarrow> string option" where
  "match_run placeholder s =
     Option.bind (expect ''<w:r'' s) (\<lambda>s1.
     Option.bind (expect ''>'' (dropWhile not_gt s1)) (\<lambda>s2.
     Option.bind (expect ''<w:t'' (dropWhile is_space s2)) (\<lambda>s3.
     Option.bind (expect ''>'' (dropWhile not_gt s3)) (\<lambda>s4.
     Option.bind (expect placeholder s4) (\<lambda>s5.
     Option.bind (expect ''</w:t>'' s5) (\<lambda>s6.
     expect ''</w:r>'' (dropWhile is_space s6)))))))"

text \<open>
  The replacement text of \<open>String.prototype.replace\<close> for an expression without groups:
  \<^verbatim>\<open>$$\<close> is a dollar sign, \<^verbatim>\<open>$&\<close> the matched text, \<^verbatim>\<open>$`\<close> the text before the match,
  \<^verbatim>\<open>$'\<close> the text behind it; any other dollar sign stands for itself.
\<close>

fun get_substitution :: "string \<Rightarrow> string \<Rightarrow> string \<Rightarrow> string \<Rightarrow> string" where
  "get_substitution matched preceding following [] = []"
| "get_substitution matched preceding following [c] = [c]"
| "get_substitution matched preceding following (c # d # r) =
     (if c = CHR ''$'' \<and> d = CHR ''$'' then CHR ''$'' # get_substitution matched preceding following r
      else if c = CHR ''$'' \<and> d = CHR ''&'' then matched @ get_substitution matched preceding following r
      else if c = CHR ''$'' \<and> d = CHR 0x60 then preceding @ get_substitution matched preceding following r
      else if c = CHR ''$'' \<and> d = CHR 0x27 then following @ get_substitution matched preceding following r
      else c # get_substitution matched preceding following (d # r))"

lemma expect_length: "expect lit s = Some r \<Longrightarrow> length s = length lit + length r"
proof -
  assume a: "expect lit s = Some r"
  then have t: "take (length lit) s = lit" and r: "r = drop (length lit) s"
    by (auto simp: expect_def split: if_splits)
  from t have "length (take (length lit) s) = length lit" by simp
  then have "length lit \<le> length s" by simp
  with r show ?thesis by simp
qed

lemma match_run_shorter:
  assumes "match_run placeholder s = Some r"
  shows "length r < length s"
proof -
  from assms obtain s1 where s1: "expect ''<w:r'' s = Some s1"
    by (auto simp: match_run_def split: Option.bind_splits)
  from assms s1 obtain s2 where s2: "expect ''>'' (dropWhile not_gt s1) = Some s2"
    by (auto simp: match_run_def split: Option.bind_splits)
  from assms s1 s2 obtain s3 where s3: "expect ''<w:t'' (dropWhile is_space s2) = Some s3"
    by (auto simp: match_run_def split: Option.bind_splits)
  from assms s1 s2 s3 obtain s4 where s4: "expect ''>'' (dropWhile not_gt s3) = Some s4"
    by (auto simp: match_run_def split: Option.bind_splits)
  from assms s1 s2 s3 s4 obtain s5 where s5: "expect placeholder s4 = Some s5"
    by (auto simp: match_run_def split: Option.bind_splits)
  from assms s1 s2 s3 s4 s5 obtain s6 where s6: "expect ''</w:t>'' s5 = Some s6"
    by (auto simp: match_run_def split: Option.bind_splits)
  from assms s1 s2 s3 s4 s5 s6 have s7: "expect ''</w:r>'' (dropWhile is_space s6) = Some r"
    by (auto simp: match_run_def split: Option.bind_splits)
  have "length s1 < length s" using expect_length[OF s1] by simp
  moreover have "length s2 \<le> length s1"
    using expect_length[OF s2] length_dropWhile_le[of not_gt s1] by simp
  moreover have "length s3 \<le> length s2"
    using expect_length[OF s3] length_dropWhile_le[of is_space s2] by simp
  moreover have "length s4 \<le> length s3"
    using expect_length[OF s4] length_dropWhile_le[of not_gt s3] by simp
  moreover have "length s5 \<le> length s4" using expect_length[OF s5] by simp
  moreover have "length s6 \<le> length s5" using expect_length[OF s6] by simp
  moreover have "length r \<le> length s6"
    using expect_length[OF s7] length_dropWhile_le[of is_space s6] by simp
  ultimately show ?thesis by linarith
qed

text \<open>
  \<open>xml.replace(pattern, omml)\<close> with the global flag: \<open>passed\<close> is the part of the string
  already passed, the second string what is still to scan.
\<close>

function replace_runs :: "string \<Rightarrow> string \<Rightarrow> string \<Rightarrow> string \<Rightarrow> string" where
  "replace_runs placeholder omml passed [] = []"
| "replace_runs placeholder omml passed (c # s) =
     (case match_run placeholder (c # s) of
        Some rest \<Rightarrow>
          (let matched = take (length (c # s) - length rest) (c # s)
           in get_substitution matched passed rest omml
              @ replace_runs placeholder omml (passed @ matched) rest)
      | None \<Rightarrow> c # replace_runs placeholder omml (passed @ [c]) s)"
  by pat_completeness auto
termination
proof (relation "measure (\<lambda>(placeholder, omml, passed, s). length s)")
  show "wf (measure (\<lambda>(placeholder, omml, passed, s). length s))" by simp
next
  fix placeholder omml passed :: string and c s rest matched
  assume "match_run placeholder (c # s) = Some rest"
  from match_run_shorter[OF this]
  show "((placeholder, omml, passed @ matched, rest), (placeholder, omml, passed, c # s))
          \<in> measure (\<lambda>(placeholder, omml, passed, s). length s)"
    by simp
next
  fix placeholder omml passed :: string and c s
  show "((placeholder, omml, passed @ [c], s), (placeholder, omml, passed, c # s))
          \<in> measure (\<lambda>(placeholder, omml, passed, s). length s)"
    by simp
qed

text \<open>The loop of lines 214 to 222 over the entries of the map, in insertion order.\<close>

fun substitute :: "(string \<times> string) list \<Rightarrow> string \<Rightarrow> string" where
  "substitute [] modifiedXml = modifiedXml"
| "substitute ((placeholder, omml) # rest) modifiedXml =
     substitute rest (replace_runs placeholder omml [] modifiedXml)"

subsection \<open>The whole export\<close>

text \<open>
  The document builder (\<open>docx\<close>) and the archive library (JSZip) are outside the repository
  and are parameters: \<open>toBlob\<close> serialises the paragraphs, \<open>loadAsync\<close> opens the container,
  \<open>readDocumentXml\<close> reads \<open>word/document.xml\<close> (\<open>None\<close> when the part is missing),
  \<open>writeDocumentXml\<close> stores it and \<open>generateAsync\<close> serialises the archive. The export
  returns the blob together with the external calls it made, in order.
\<close>

datatype ext_call = ToBlob | LoadAsync | ReadDocumentXml | WriteDocumentXml | GenerateAsync

record ('blob, 'zip) externals =
  toBlob :: "Paragraph list \<Rightarrow> 'blob"
  loadAsync :: "'blob \<Rightarrow> 'zip"
  readDocumentXml :: "'zip \<Rightarrow> string option"
  writeDocumentXml :: "'zip \<Rightarrow> string \<Rightarrow> 'zip"
  generateAsync :: "'zip \<Rightarrow> 'blob"

definition generateDocx ::
  "renderer \<Rightarrow> bridge \<Rightarrow> ('blob, 'zip) externals \<Rightarrow> string \<Rightarrow> 'blob \<times> ext_call list"
where
  "generateDocx render mathmlToOmml ext input =
     (let st = assemble render mathmlToOmml input;
          blob = toBlob ext (paragraphs st)
      in if length (mathPlaceholders st) = 0 then (blob, [ToBlob])
         else
           (let zip = loadAsync ext blob
            in case readDocumentXml ext zip of
                 None \<Rightarrow> (blob, [ToBlob, LoadAsync, ReadDocumentXml])
               | Some documentXml \<Rightarrow>
                   if documentXml = [] then (blob, [ToBlob, LoadAsync, ReadDocumentXml])
                   else
                     (let modifiedXml = substitute (mathPlaceholders st) documentXml;
                          zip1 = writeDocumentXml ext zip modifiedXml
                      in (generateAsync ext zip1,
                          [ToBlob, LoadAsync, ReadDocumentXml, WriteDocumentXml, GenerateAsync]))))"

section \<open>Auxiliary definitions for the proofs\<close>

text \<open>
  A string holds a match of the formula pattern exactly when it holds a non-empty run without
  dollar signs between two dollar signs.
\<close>

definition has_formula :: "string \<Rightarrow> bool" where
  "has_formula s = (\<exists>p b r. s = p @ CHR ''$'' # b @ CHR ''$'' # r \<and> b \<noteq> [] \<and> CHR ''$'' \<notin> set b)"

text \<open>The four escaping steps, character by character.\<close>

definition esc1 :: "char \<Rightarrow> string" where
  "esc1 c = (if c = CHR ''&'' then ''&amp;'' else [c])"

definition esc2 :: "char \<Rightarrow> string" where
  "esc2 c = (if c = CHR ''&'' then ''&amp;'' else if c = CHR ''<'' then ''&lt;'' else [c])"

definition esc3 :: "char \<Rightarrow> string" where
  "esc3 c = (if c = CHR ''&'' then ''&amp;'' else if c = CHR ''<'' then ''&lt;''
             else if c = CHR ''>'' then ''&gt;'' else [c])"

definition esc4 :: "char \<Rightarrow> string" where
  "esc4 c = (if c = CHR ''&'' then ''&amp;'' else if c = CHR ''<'' then ''&lt;''
             else if c = CHR ''>'' then ''&gt;'' else if c = DQ then ''&quot;'' else [c])"

text \<open>Reading a decimal text back, to show that printing is injective.\<close>

definition digit_val :: "char \<Rightarrow> nat" where
  "digit_val c = of_char c - 48"

definition read_nat :: "string \<Rightarrow> nat" where
  "read_nat s = foldl (\<lambda>a c. 10 * a + digit_val c) 0 s"

text \<open>
  The runs a builder holds, in document order (those of the
  finished paragraphs, then those of the paragraph being collected), and what a list of items
  adds to the runs and to the placeholder map when the next index is \<open>n\<close>.
\<close>

fun run_text :: "text_run \<Rightarrow> string" where
  "run_text (TextRun t) = t"

definition all_runs :: "builder \<Rightarrow> text_run list" where
  "all_runs st = concat (map children (paragraphs st)) @ map item_run (currentParagraphItems st)"

definition text_runs :: "string \<Rightarrow> text_run list" where
  "text_runs v =
     map TextRun (filter (\<lambda>t. t \<noteq> []) (map (replaceAll [LF] '' '') (split_paragraphs [] v)))"

fun runs_from :: "nat \<Rightarrow> content_item list \<Rightarrow> text_run list" where
  "runs_from n [] = []"
| "runs_from n (MathItem omml isBlock # items) =
     TextRun (placeholder_token n) # runs_from (Suc n) items"
| "runs_from n (TextItem v # items) = text_runs v @ runs_from n items"

fun registered :: "nat \<Rightarrow> content_item list \<Rightarrow> (string \<times> string) list" where
  "registered n [] = []"
| "registered n (MathItem omml isBlock # items) =
     (placeholder_token n, omml) # registered (Suc n) items"
| "registered n (TextItem v # items) = registered n items"

fun is_math :: "content_item \<Rightarrow> bool" where
  "is_math (MathItem omml isBlock) = True"
| "is_math (TextItem v) = False"

text \<open>Items whose texts do not hold the reserved prefix.\<close>

definition prefix_free :: "content_item list \<Rightarrow> bool" where
  "prefix_free items = (\<forall>v. TextItem v \<in> set items \<longrightarrow> \<not> sublist placeholder_prefix v)"

subsection \<open>The shape of a body part\<close>

text \<open>
  The body part \<open>word/document.xml\<close> comes from the document builder, which is outside the
  repository. To say what the substitution achieves, a body is described as markup and run
  elements in turn: a stretch of markup, then a run element whose text is a placeholder
  token, and so on, with a last stretch of markup. A run element has the shape the
  expression of line 217 looks for: attributes on the two tags and white space around the
  text element.
\<close>

record placeholder_run =
  run_attrs :: string
  run_space :: string
  text_attrs :: string
  token_index :: nat
  text_space :: string

definition run_xml :: "placeholder_run \<Rightarrow> string" where
  "run_xml r =
     ''<w:r'' @ run_attrs r @ ''>'' @ run_space r @ ''<w:t'' @ text_attrs r @ ''>''
       @ placeholder_token (token_index r) @ ''</w:t>'' @ text_space r @ ''</w:r>''"

datatype body = Tail string | Piece string placeholder_run body

fun body_xml :: "body \<Rightarrow> string" where
  "body_xml (Tail c) = c"
| "body_xml (Piece c r d) = c @ run_xml r @ body_xml d"

fun body_tokens :: "body \<Rightarrow> nat list" where
  "body_tokens (Tail c) = []"
| "body_tokens (Piece c r d) = token_index r # body_tokens d"

text \<open>
  The markup between the run elements does not hold the reserved prefix and, unless empty,
  ends with the end of a tag. Attributes hold no angle brackets.
\<close>

definition chunk_ok :: "string \<Rightarrow> bool" where
  "chunk_ok c = (\<not> sublist placeholder_prefix c \<and> (c = [] \<or> last c = CHR ''>''))"

definition attrs_ok :: "string \<Rightarrow> bool" where
  "attrs_ok a = (CHR ''<'' \<notin> set a \<and> CHR ''>'' \<notin> set a)"

definition run_ok :: "placeholder_run \<Rightarrow> bool" where
  "run_ok r = (attrs_ok (run_attrs r) \<and> attrs_ok (text_attrs r)
               \<and> list_all is_space (run_space r) \<and> list_all is_space (text_space r))"

fun body_ok :: "body \<Rightarrow> bool" where
  "body_ok (Tail c) = chunk_ok c"
| "body_ok (Piece c r d) = (chunk_ok c \<and> run_ok r \<and> body_ok d)"

text \<open>
  A replacement text without a pattern that \<open>String.prototype.replace\<close> would expand: no
  dollar sign is followed by a dollar sign, an ampersand, a backtick or an apostrophe.
\<close>

fun literal_text :: "string \<Rightarrow> bool" where
  "literal_text [] = True"
| "literal_text [c] = True"
| "literal_text (c # d # r) =
     (\<not> (c = CHR ''$'' \<and> d \<in> set [CHR ''$'', CHR ''&'', CHR 0x60, CHR 0x27])
      \<and> literal_text (d # r))"

text \<open>
  A fragment that can stand in the place of a run element: it does not hold the reserved
  prefix, has no pattern that the replacement would expand and, unless empty, ends with the
  end of a tag.
\<close>

definition fragment_ok :: "string \<Rightarrow> bool" where
  "fragment_ok omml = (chunk_ok omml \<and> literal_text omml)"

text \<open>The body with the fragment in the place of every run element of token \<open>k\<close>.\<close>

fun glue :: "string \<Rightarrow> body \<Rightarrow> body" where
  "glue x (Tail c) = Tail (x @ c)"
| "glue x (Piece c r d) = Piece (x @ c) r d"

fun subst_body :: "nat \<Rightarrow> string \<Rightarrow> body \<Rightarrow> body" where
  "subst_body k omml (Tail c) = Tail c"
| "subst_body k omml (Piece c r d) =
     (if token_index r = k then glue (c @ omml) (subst_body k omml d)
      else Piece c r (subst_body k omml d))"

fun subst_all :: "(nat \<times> string) list \<Rightarrow> body \<Rightarrow> body" where
  "subst_all [] d = d"
| "subst_all ((k, omml) # ks) d = subst_all ks (subst_body k omml d)"

text \<open>The entries of the placeholder map with the index in the place of the token.\<close>

fun indexed :: "nat \<Rightarrow> content_item list \<Rightarrow> (nat \<times> string) list" where
  "indexed n [] = []"
| "indexed n (MathItem omml isBlock # items) = (n, omml) # indexed (Suc n) items"
| "indexed n (TextItem v # items) = indexed n items"

definition token_entry :: "nat \<times> string \<Rightarrow> string \<times> string" where
  "token_entry e = (placeholder_token (fst e), snd e)"

text \<open>What may follow a stretch of markup: nothing, or a run element.\<close>

definition run_next :: "string \<Rightarrow> bool" where
  "run_next v = (v = [] \<or> take 4 v = ''<w:r'')"

subsection \<open>A serialisation for the examples\<close>

text \<open>
  A plain serialisation for the examples. The document builder and the archive library are
  outside the repository; in the examples each paragraph becomes a \<open>w:p\<close> element and each
  run a \<open>w:r\<close> element with one \<open>w:t\<close>, and the blob and the archive are the body part
  itself.
\<close>

definition example_xml :: "Paragraph list \<Rightarrow> string" where
  "example_xml ps =
     concat (map (\<lambda>p. ''<w:p>''
                        @ concat (map (\<lambda>r. ''<w:r><w:t>'' @ run_text r @ ''</w:t></w:r>'')
                                    (children p))
                        @ ''</w:p>'') ps)"

definition example_externals :: "(string, string) externals" where
  "example_externals =
     \<lparr>toBlob = example_xml, loadAsync = (\<lambda>blob. blob), readDocumentXml = Some,
      writeDocumentXml = (\<lambda>zip xml. xml), generateAsync = (\<lambda>zip. zip)\<rparr>"

section \<open>The loop over the matches\<close>

lemma exec_all_None: "regex_exec s lastIndex = None \<Longrightarrow> exec_all s lastIndex = []"
  by (simp add: exec_all.simps)

lemma exec_all_Some:
  "regex_exec s lastIndex = Some m \<Longrightarrow>
     exec_all s lastIndex = m # exec_all s (index m + length (whole m))"
  by (subst exec_all.simps) simp

lemma slice_pieces:
  assumes "a \<le> b" "b \<le> c" "c \<le> length s"
  shows "slice s a b @ slice s b c @ drop c s = drop a s"
proof -
  have 1: "take (c - b) (drop b s) @ drop c s = drop b s"
  proof -
    have "drop c s = drop (c - b) (drop b s)" using assms by simp
    then show ?thesis by (simp only: append_take_drop_id)
  qed
  have 2: "take (b - a) (drop a s) @ drop b s = drop a s"
  proof -
    have "drop b s = drop (b - a) (drop a s)" using assms by simp
    then show ?thesis by (simp only: append_take_drop_id)
  qed
  show ?thesis unfolding slice_def by (simp only: 1 2)
qed

lemma segment_loop_source:
  "lastIndex \<le> length s \<Longrightarrow>
     concat (map span_source (segment_loop s lastIndex (exec_all s lastIndex))) = drop lastIndex s"
proof (induction s lastIndex rule: exec_all.induct)
  case (1 s lastIndex)
  show ?case
  proof (cases "regex_exec s lastIndex")
    case None
    then show ?thesis by (simp add: exec_all_None slice_from_def)
  next
    case (Some m)
    note r = regex_exec_Some[OF Some]
    let ?e = "index m + length (whole m)"
    from 1(1)[OF Some] r(2)
    have ih: "concat (map span_source (segment_loop s ?e (exec_all s ?e))) = drop ?e s"
      by simp
    have "slice s lastIndex (index m) @ slice s (index m) ?e @ drop ?e s = drop lastIndex s"
      using r by (intro slice_pieces) simp_all
    with r(4) ih show ?thesis
      by (simp add: exec_all_Some[OF Some])
  qed
qed

lemma segment_source: "concat (map span_source (segment s)) = s"
  using segment_loop_source[of 0 s] by (simp add: segment_def)

lemma items_loop_spans:
  "items_loop render mathmlToOmml text items lastIndex ms =
     items @ concat (map (span_items render mathmlToOmml) (segment_loop text lastIndex ms))"
  by (induction ms arbitrary: items lastIndex) (simp_all add: Let_def)

lemma copy_loop_spans:
  "copy_loop render input result lastIndex ms =
     result @ concat (map (copy_piece render) (segment_loop input lastIndex ms))"
  by (induction ms arbitrary: result lastIndex) (simp_all add: Let_def)

lemma display_loop_spans:
  "display_loop render input result lastIndex ms =
     result @ concat (map (display_piece render) (segment_loop input lastIndex ms))"
  by (induction ms arbitrary: result lastIndex) (simp_all add: Let_def)

lemma parse_items_spans:
  "parse_items render mathmlToOmml text = concat (map (span_items render mathmlToOmml) (segment text))"
  by (simp add: parse_items_def segment_def items_loop_spans)

lemma handleCopy_spans:
  "handleCopy render input = concat (map (copy_piece render) (segment input))"
  by (simp add: handleCopy_def segment_def copy_loop_spans)

lemma parseForDisplay_spans:
  "parseForDisplay render input = concat (map (display_piece render) (segment input))"
  by (simp add: parseForDisplay_def segment_def display_loop_spans)

lemma match_here_groups:
  assumes "match_here i s = Some m"
  shows "(\<exists>b. grp1 m = Some b \<and> grp2 m = None \<and> whole m = ''$$'' @ b @ ''$$''
              \<and> b \<noteq> [] \<and> CHR ''$'' \<notin> set b)
       \<or> (\<exists>b. grp1 m = None \<and> grp2 m = Some b \<and> whole m = ''$'' @ b @ ''$''
              \<and> b \<noteq> [] \<and> CHR ''$'' \<notin> set b)"
proof (cases "alt_block s")
  case (Some p)
  obtain w b where p: "p = (w, b)" by (cases p)
  from assms Some p have m: "grp1 m = Some b" "grp2 m = None" "whole m = w"
    by (auto simp: match_here_def)
  note f = alt_block_Some[OF Some[unfolded p]]
  from f have "w = ''$$'' @ b @ ''$$''" and "b \<noteq> []" and "\<forall>c \<in> set b. c \<noteq> CHR ''$''"
    by blast+
  with m show ?thesis by auto
next
  case None
  show ?thesis
  proof (cases "alt_inline s")
    case (Some p)
    obtain w b where p: "p = (w, b)" by (cases p)
    from assms None Some p have m: "grp1 m = None" "grp2 m = Some b" "whole m = w"
      by (auto simp: match_here_def)
    note f = alt_inline_Some[OF Some[unfolded p]]
    from f have "w = ''$'' @ b @ ''$''" and "b \<noteq> []" and "\<forall>c \<in> set b. c \<noteq> CHR ''$''"
      by blast+
    with m show ?thesis by auto
  next
    case inl: None
    from assms None inl show ?thesis by (simp add: match_here_def)
  qed
qed

lemma search_match_here:
  "search i s = Some m \<Longrightarrow> \<exists>j t. match_here j t = Some m"
proof (induction i s rule: search.induct)
  case (1 i)
  then show ?case by auto
next
  case (2 i c s)
  then show ?case by (cases "match_here i (c # s)") auto
qed

lemma regex_exec_groups:
  assumes "regex_exec s lastIndex = Some m"
  shows "(\<exists>b. grp1 m = Some b \<and> grp2 m = None \<and> whole m = ''$$'' @ b @ ''$$''
              \<and> b \<noteq> [] \<and> CHR ''$'' \<notin> set b)
       \<or> (\<exists>b. grp1 m = None \<and> grp2 m = Some b \<and> whole m = ''$'' @ b @ ''$''
              \<and> b \<noteq> [] \<and> CHR ''$'' \<notin> set b)"
proof -
  from assms have "search lastIndex (drop lastIndex s) = Some m"
    by (auto simp: regex_exec_def split: if_splits)
  from search_match_here[OF this] obtain j t where "match_here j t = Some m" by blast
  from match_here_groups[OF this] show ?thesis .
qed

lemma segment_loop_Formula:
  "Formula m \<in> set (segment_loop s lastIndex (exec_all s lastIndex)) \<Longrightarrow>
     \<exists>l. regex_exec s l = Some m"
proof (induction s lastIndex rule: exec_all.induct)
  case (1 s lastIndex)
  show ?case
  proof (cases "regex_exec s lastIndex")
    case None
    with 1(2) show ?thesis by (simp add: exec_all_None)
  next
    case (Some m')
    from 1(2) have "m = m' \<or>
        Formula m \<in> set (segment_loop s (index m' + length (whole m'))
                           (exec_all s (index m' + length (whole m'))))"
      by (simp add: exec_all_Some[OF Some])
    then show ?thesis
    proof
      assume "m = m'"
      with Some show ?thesis by blast
    next
      assume "Formula m \<in> set (segment_loop s (index m' + length (whole m'))
                           (exec_all s (index m' + length (whole m'))))"
      from 1(1)[OF Some this] show ?thesis .
    qed
  qed
qed

lemma segment_Formula:
  assumes "Formula m \<in> set (segment s)"
  shows "\<exists>l. regex_exec s l = Some m"
  using assms segment_loop_Formula[of m s 0] by (simp add: segment_def)

text \<open>No match of the pattern leaves both groups undefined or empty.\<close>

lemma exec_all_groups:
  assumes "Formula m \<in> set (segment s)"
  shows "\<exists>b. js_or (grp1 m) (grp2 m) = Some b \<and> b \<noteq> [] \<and> CHR ''$'' \<notin> set b
            \<and> whole m = (if truthy (grp1 m) then ''$$'' @ b @ ''$$'' else ''$'' @ b @ ''$'')"
proof -
  from segment_Formula[OF assms] obtain l where "regex_exec s l = Some m" ..
  from regex_exec_groups[OF this] show ?thesis
    by (auto simp: js_or_def truthy_def)
qed

lemma segment_Formula_slice:
  assumes "Formula m \<in> set (segment s)"
  shows "whole m = slice s (index m) (index m + length (whole m))" and "3 \<le> length (whole m)"
proof -
  from segment_Formula[OF assms] obtain l where l: "regex_exec s l = Some m" ..
  from regex_exec_Some[OF l] show "whole m = slice s (index m) (index m + length (whole m))"
    and "3 \<le> length (whole m)" by simp_all
qed

lemma convert_item_render_fails:
  "latexToMathML_of render m = None \<Longrightarrow> convert_item render mathmlToOmml m = TextItem (whole m)"
  by (simp add: convert_item_def)

lemma convert_item_bridge_fails:
  "latexToMathML_of render m = Some mathml \<Longrightarrow> mathmlToOmml mathml = None \<Longrightarrow>
     convert_item render mathmlToOmml m = TextItem (whole m)"
  by (simp add: convert_item_def)

lemma span_items_all_fail:
  assumes "\<And>m. Formula m \<in> set xs \<Longrightarrow> convert_item render mathmlToOmml m = TextItem (whole m)"
    and "\<And>m. Formula m \<in> set xs \<Longrightarrow> whole m \<noteq> []"
  shows "concat (map (span_items render mathmlToOmml) xs)
           = map TextItem (filter (\<lambda>t. t \<noteq> []) (map span_source xs))"
  using assms
proof (induction xs)
  case Nil
  then show ?case by simp
next
  case (Cons x xs)
  then have ih: "concat (map (span_items render mathmlToOmml) xs)
           = map TextItem (filter (\<lambda>t. t \<noteq> []) (map span_source xs))"
    by simp
  show ?case
  proof (cases x)
    case (Text t)
    with ih show ?thesis by simp
  next
    case (Formula m)
    with Cons.prems have "convert_item render mathmlToOmml m = TextItem (whole m)" "whole m \<noteq> []"
      by simp_all
    with ih Formula show ?thesis by simp
  qed
qed

lemma concat_filter_nonempty: "concat (filter (\<lambda>t. t \<noteq> []) xs) = concat xs"
  by (induction xs) simp_all

lemma latexToMathML_of_never: "latexToMathML_of (\<lambda>latex isBlock. None) m = None"
  by (simp add: latexToMathML_of_def split: option.splits)

lemma convert_item_never_bridge:
  "convert_item render (\<lambda>mathml. None) m = TextItem (whole m)"
  by (simp add: convert_item_def split: option.splits)

lemma copy_pieces_fail:
  "concat (map (copy_piece (\<lambda>latex isBlock. None)) xs) = concat (map span_source xs)"
proof (induction xs)
  case Nil
  then show ?case by simp
next
  case (Cons x xs)
  then show ?case by (cases x) (simp_all add: latexToMathML_of_never)
qed

section \<open>Literal replacement\<close>

lemma replaceAll_char:
  "replaceAll [c] rep s = concat (map (\<lambda>x. if x = c then rep else [x]) s)"
  by (induction s) simp_all

lemma concat_map_concat_map:
  "concat (map f (concat (map g s))) = concat (map (\<lambda>x. concat (map f (g x))) s)"
  by (induction s) simp_all

lemma escapeHtml_chars: "escapeHtml s = concat (map esc3 s)"
proof -
  have 1: "replaceAll ''&'' ''&amp;'' s = concat (map esc1 s)"
    by (simp add: replaceAll_char esc1_def[abs_def])
  have 2: "replaceAll ''<'' ''&lt;'' (concat (map esc1 s)) = concat (map esc2 s)"
    unfolding replaceAll_char concat_map_concat_map
    by (rule arg_cong[where f = concat], rule map_cong) (simp_all add: esc1_def esc2_def)
  have 3: "replaceAll ''>'' ''&gt;'' (concat (map esc2 s)) = concat (map esc3 s)"
    unfolding replaceAll_char concat_map_concat_map
    by (rule arg_cong[where f = concat], rule map_cong) (simp_all add: esc2_def esc3_def)
  show ?thesis by (simp only: escapeHtml_def 1 2 3)
qed

lemma escapedLatex_chars: "escapedLatex s = concat (map esc4 s)"
proof -
  have "replaceAll [DQ] ''&quot;'' (concat (map esc3 s)) = concat (map esc4 s)"
    unfolding replaceAll_char concat_map_concat_map
    by (rule arg_cong[where f = concat], rule map_cong)
       (simp_all add: esc3_def esc4_def DQ_def)
  then show ?thesis by (simp only: escapedLatex_def escapeHtml_chars)
qed

lemma unquote_chars: "replaceAll ''&quot;'' [DQ] (concat (map esc4 s)) = concat (map esc3 s)"
  by (induction s) (simp_all add: esc4_def esc3_def DQ_def)

lemma unlt_chars: "replaceAll ''&lt;'' ''<'' (concat (map esc3 s)) = concat (map (\<lambda>c. if c = CHR ''&'' then ''&amp;'' else if c = CHR ''>'' then ''&gt;'' else [c]) s)"
  by (induction s) (simp_all add: esc3_def)

lemma ungt_chars: "replaceAll ''&gt;'' ''>'' (concat (map (\<lambda>c. if c = CHR ''&'' then ''&amp;'' else if c = CHR ''>'' then ''&gt;'' else [c]) s)) = concat (map esc1 s)"
  by (induction s) (simp_all add: esc1_def)

lemma unamp_chars: "replaceAll ''&amp;'' ''&'' (concat (map esc1 s)) = s"
  by (induction s) (simp_all add: esc1_def)

section \<open>Placeholder tokens\<close>

lemma below_ten:
  "(d::nat) < 10 \<Longrightarrow> d = 0 \<or> d = 1 \<or> d = 2 \<or> d = 3 \<or> d = 4 \<or> d = 5 \<or> d = 6 \<or> d = 7 \<or> d = 8 \<or> d = 9"
  by arith

lemma digit_val_digit_char: "d < 10 \<Longrightarrow> digit_val (digit_char d) = d"
  by (drule below_ten) (auto simp: digit_val_def digit_char_def)

lemma digit_char_in: "d < 10 \<Longrightarrow> digit_char d \<in> set ''0123456789''"
  by (drule below_ten) (auto simp: digit_char_def)

lemma read_nat_snoc: "read_nat (s @ [c]) = 10 * read_nat s + digit_val c"
  by (simp add: read_nat_def)

lemma read_show_nat: "read_nat (show_nat n) = n"
proof (induction n rule: show_nat.induct)
  case (1 n)
  show ?case
  proof (cases "n < 10")
    case True
    then show ?thesis
      by (subst show_nat.simps) (simp add: read_nat_def digit_val_digit_char)
  next
    case False
    with 1 have ih: "read_nat (show_nat (n div 10)) = n div 10" by simp
    have "read_nat (show_nat n) = 10 * read_nat (show_nat (n div 10)) + digit_val (digit_char (n mod 10))"
      using False by (subst show_nat.simps) (simp add: read_nat_snoc)
    also have "\<dots> = 10 * (n div 10) + n mod 10"
      by (simp add: ih digit_val_digit_char)
    finally show ?thesis by simp
  qed
qed

lemma show_nat_inj:
  assumes "show_nat a = show_nat b"
  shows "a = b"
proof -
  from assms have "read_nat (show_nat a) = read_nat (show_nat b)" by (rule arg_cong)
  then show ?thesis by (simp only: read_show_nat)
qed

lemma show_nat_digits: "set (show_nat n) \<subseteq> set ''0123456789''"
proof (induction n rule: show_nat.induct)
  case (1 n)
  show ?case
  proof (cases "n < 10")
    case True
    then show ?thesis
      using digit_char_in[of n] by (subst show_nat.simps) simp
  next
    case False
    with 1 have ih: "set (show_nat (n div 10)) \<subseteq> set ''0123456789''" by simp
    have "n mod 10 < 10" by simp
    from digit_char_in[OF this] ih False show ?thesis
      by (subst show_nat.simps) simp
  qed
qed

lemma show_nat_no_underscore: "CHR ''_'' \<notin> set (show_nat n)"
  using show_nat_digits[of n] by auto

lemma show_nat_no_M: "CHR ''M'' \<notin> set (show_nat n)"
  using show_nat_digits[of n] by auto

lemma placeholder_token_inj: "placeholder_token a = placeholder_token b \<Longrightarrow> a = b"
  by (simp add: placeholder_token_def show_nat_inj)

section \<open>The paragraph builder\<close>

lemma flushParagraph_fields [simp]:
  "mathPlaceholders (flushParagraph al st) = mathPlaceholders st"
  "placeholderIndex (flushParagraph al st) = placeholderIndex st"
  "currentParagraphItems (flushParagraph al st) = []"
  by (simp_all add: flushParagraph_def Let_def)

lemma flushParagraph_runs [simp]: "all_runs (flushParagraph al st) = all_runs st"
  by (simp add: flushParagraph_def all_runs_def Let_def)

lemma part_step_fields [simp]:
  "mathPlaceholders (part_step i part st) = mathPlaceholders st"
  "placeholderIndex (part_step i part st) = placeholderIndex st"
  by (simp_all add: part_step_def Let_def)

lemma part_step_runs:
  "all_runs (part_step i part st)
     = all_runs st @ map TextRun (filter (\<lambda>t. t \<noteq> []) [replaceAll [LF] '' '' part])"
proof -
  have "all_runs (st'\<lparr>currentParagraphItems := currentParagraphItems st' @ [PText t]\<rparr>)
          = all_runs st' @ [TextRun t]" for st' t
    by (simp add: all_runs_def item_run_def)
  then show ?thesis
    by (simp add: part_step_def Let_def)
qed

lemma parts_loop_fields [simp]:
  "mathPlaceholders (parts_loop i parts st) = mathPlaceholders st"
  "placeholderIndex (parts_loop i parts st) = placeholderIndex st"
  by (induction parts arbitrary: i st) simp_all

lemma parts_loop_runs:
  "all_runs (parts_loop i parts st)
     = all_runs st @ map TextRun (filter (\<lambda>t. t \<noteq> []) (map (replaceAll [LF] '' '') parts))"
proof (induction parts arbitrary: i st)
  case Nil
  then show ?case by simp
next
  case (Cons part parts)
  show ?case
    by (simp only: parts_loop.simps Cons.IH part_step_runs) simp
qed

lemma update_fresh: "k \<notin> fst ` set al \<Longrightarrow> AList.update k v al = al @ [(k, v)]"
  by (induction al) auto

lemma item_step_math_fields:
  "mathPlaceholders (item_step (MathItem omml isBlock) st)
     = AList.update (placeholder_token (placeholderIndex st)) omml (mathPlaceholders st)"
  "placeholderIndex (item_step (MathItem omml isBlock) st) = Suc (placeholderIndex st)"
  by (simp_all add: Let_def)

lemma item_step_math_runs:
  "all_runs (item_step (MathItem omml isBlock) st)
     = all_runs st @ [TextRun (placeholder_token (placeholderIndex st))]"
proof (cases isBlock)
  case True
  have "all_runs (item_step (MathItem omml True) st)
          = all_runs (flushParagraph LEFT st) @ [TextRun (placeholder_token (placeholderIndex st))]"
    by (simp add: Let_def all_runs_def)
  with True show ?thesis by simp
next
  case False
  then show ?thesis by (simp add: Let_def all_runs_def item_run_def)
qed

lemma item_step_text_fields [simp]:
  "mathPlaceholders (item_step (TextItem v) st) = mathPlaceholders st"
  "placeholderIndex (item_step (TextItem v) st) = placeholderIndex st"
  by simp_all

lemma item_step_text_runs: "all_runs (item_step (TextItem v) st) = all_runs st @ text_runs v"
  by (simp add: parts_loop_runs text_runs_def)

lemma items_steps_runs:
  "all_runs (items_steps items st) = all_runs st @ runs_from (placeholderIndex st) items"
proof (induction items arbitrary: st)
  case Nil
  then show ?case by simp
next
  case (Cons item items)
  show ?case
  proof (cases item)
    case (TextItem v)
    then show ?thesis
      by (simp only: items_steps.simps Cons.IH item_step_text_runs item_step_text_fields
            runs_from.simps append_assoc)
  next
    case (MathItem omml isBlock)
    then show ?thesis
      by (simp only: items_steps.simps Cons.IH item_step_math_runs item_step_math_fields
            runs_from.simps append_assoc append_Cons append_Nil)
  qed
qed

lemma items_steps_index:
  "placeholderIndex (items_steps items st) = placeholderIndex st + length (filter is_math items)"
proof (induction items arbitrary: st)
  case Nil
  then show ?case by simp
next
  case (Cons item items)
  show ?case
    by (cases item)
       (simp_all only: items_steps.simps Cons.IH item_step_text_fields item_step_math_fields
          filter.simps is_math.simps if_True if_False list.size add_Suc_right add_Suc add_0_right)
qed

lemma registered_keys:
  "map fst (registered n items) = map placeholder_token [n ..< n + length (filter is_math items)]"
proof (induction items arbitrary: n)
  case Nil
  then show ?case by simp
next
  case (Cons item items)
  show ?case
  proof (cases item)
    case (TextItem v)
    with Cons show ?thesis by simp
  next
    case (MathItem omml isBlock)
    define k where "k = length (filter is_math items)"
    have "[n ..< n + Suc k] = n # [Suc n ..< n + Suc k]"
      by (rule upt_conv_Cons) simp
    then have u: "[n ..< n + Suc k] = n # [Suc n ..< Suc n + k]" by simp
    have "map fst (registered n (item # items))
            = placeholder_token n # map placeholder_token [Suc n ..< Suc n + k]"
      using MathItem Cons[of "Suc n"] by (simp add: k_def)
    also have "\<dots> = map placeholder_token [n ..< n + Suc k]"
      by (simp only: u list.map)
    also have "n + Suc k = n + length (filter is_math (item # items))"
      using MathItem by (simp add: k_def)
    finally show ?thesis .
  qed
qed

lemma items_steps_placeholders:
  "fst ` set (mathPlaceholders st) \<subseteq> placeholder_token ` {..< placeholderIndex st} \<Longrightarrow>
     mathPlaceholders (items_steps items st)
       = mathPlaceholders st @ registered (placeholderIndex st) items"
proof (induction items arbitrary: st)
  case Nil
  then show ?case by simp
next
  case (Cons item items)
  show ?case
  proof (cases item)
    case (TextItem v)
    with Cons show ?thesis by simp
  next
    case (MathItem omml isBlock)
    let ?k = "placeholder_token (placeholderIndex st)"
    let ?st = "item_step (MathItem omml isBlock) st"
    have fresh: "?k \<notin> fst ` set (mathPlaceholders st)"
    proof
      assume "?k \<in> fst ` set (mathPlaceholders st)"
      with Cons.prems obtain j where "j < placeholderIndex st" "?k = placeholder_token j"
        by auto
      with placeholder_token_inj[of "placeholderIndex st" j] show False by simp
    qed
    have mp: "mathPlaceholders ?st = mathPlaceholders st @ [(?k, omml)]"
      by (simp only: item_step_math_fields update_fresh[OF fresh])
    have idx: "placeholderIndex ?st = Suc (placeholderIndex st)"
      by (simp only: item_step_math_fields)
    have "fst ` set (mathPlaceholders ?st) \<subseteq> placeholder_token ` {..< placeholderIndex ?st}"
      using Cons.prems unfolding mp idx by auto
    from Cons.IH[OF this] have
      "mathPlaceholders (items_steps items ?st)
         = (mathPlaceholders st @ [(?k, omml)]) @ registered (Suc (placeholderIndex st)) items"
      unfolding mp idx .
    with MathItem show ?thesis by simp
  qed
qed

lemma build_paragraphs_placeholders:
  "mathPlaceholders (build_paragraphs items) = registered 0 items"
  using items_steps_placeholders[of builder_init items]
  by (simp add: build_paragraphs_def builder_init_def)

lemma build_paragraphs_runs:
  "concat (map children (paragraphs (build_paragraphs items))) = runs_from 0 items"
proof -
  have "all_runs (build_paragraphs items) = runs_from 0 items"
    by (simp add: build_paragraphs_def items_steps_runs)
       (simp add: builder_init_def all_runs_def)
  then show ?thesis
    by (simp add: all_runs_def build_paragraphs_def)
qed

lemma registered_no_math: "filter is_math items = [] \<Longrightarrow> registered n items = []"
proof (induction items)
  case Nil
  then show ?case by simp
next
  case (Cons item items)
  then show ?case by (cases item) (simp_all split: if_splits)
qed

lemma segment_loop_position:
  "lastIndex \<le> length s \<Longrightarrow>
   segment_loop s lastIndex (exec_all s lastIndex) = before @ Formula m # after \<Longrightarrow>
     lastIndex + length (concat (map span_source before)) = index m"
proof (induction s lastIndex arbitrary: before rule: exec_all.induct)
  case (1 s lastIndex)
  show ?case
  proof (cases "regex_exec s lastIndex")
    case None
    with 1(3) have "[Text (slice_from s lastIndex)] = before @ Formula m # after"
      by (simp add: exec_all_None)
    then show ?thesis by (cases before) simp_all
  next
    case (Some m')
    note r = regex_exec_Some[OF Some]
    let ?e = "index m' + length (whole m')"
    let ?t = "slice s lastIndex (index m')"
    from 1(3) have eq: "Text ?t # Formula m' # segment_loop s ?e (exec_all s ?e)
                          = before @ Formula m # after"
      by (simp add: exec_all_Some[OF Some])
    have lt: "length ?t = index m' - lastIndex"
      using r by (simp add: slice_def)
    show ?thesis
    proof (cases before)
      case Nil
      with eq show ?thesis by simp
    next
      case (Cons x before1)
      with eq have x: "x = Text ?t"
        and eq1: "Formula m' # segment_loop s ?e (exec_all s ?e) = before1 @ Formula m # after"
        by simp_all
      show ?thesis
      proof (cases before1)
        case Nil
        with eq1 have "m = m'" by simp
        with Cons x Nil lt r show ?thesis by simp
      next
        case (Cons y before2)
        with eq1 have y: "y = Formula m'"
          and eq2: "segment_loop s ?e (exec_all s ?e) = before2 @ Formula m # after"
          by simp_all
        from r have "?e \<le> length s" by simp
        from 1(1)[OF Some this eq2]
        have "?e + length (concat (map span_source before2)) = index m" .
        with \<open>before = x # before1\<close> Cons x y lt r show ?thesis by simp
      qed
    qed
  qed
qed

lemma segment_position:
  assumes "segment s = before @ Formula m # after"
  shows "concat (map span_source before) = take (index m) s"
proof -
  from assms have "length (concat (map span_source before)) = index m"
    using segment_loop_position[of 0 s before m after] by (simp add: segment_def)
  moreover have "concat (map span_source before) @ whole m @ concat (map span_source after) = s"
    using segment_source[of s] by (simp add: assms)
  ultimately show ?thesis
    by (metis append_eq_conv_conj)
qed

lemma registered_all_text:
  "\<forall>item \<in> set items. \<not> is_math item \<Longrightarrow> registered n items = []"
  by (rule registered_no_math) (simp add: filter_empty_conv)

lemma generateDocx_no_placeholders:
  assumes "mathPlaceholders (assemble render mathmlToOmml input) = []"
  shows "generateDocx render mathmlToOmml ext input
           = (toBlob ext (paragraphs (assemble render mathmlToOmml input)), [ToBlob])"
  using assms by (simp add: generateDocx_def Let_def)

lemma assemble_all_text:
  assumes "\<forall>item \<in> set (parse_items render mathmlToOmml (normalizeLineEndings input)). \<not> is_math item"
  shows "mathPlaceholders (assemble render mathmlToOmml input) = []"
  using assms
  by (simp only: assemble_def build_paragraphs_placeholders registered_all_text)

section \<open>Matches and line endings\<close>

lemma takeWhile_not_dollar_app:
  "CHR ''$'' \<notin> set b \<Longrightarrow> takeWhile not_dollar (b @ CHR ''$'' # r) = b"
  by (induction b) (auto simp: not_dollar_def)

lemma dropWhile_not_dollar_app:
  "CHR ''$'' \<notin> set b \<Longrightarrow> dropWhile not_dollar (b @ CHR ''$'' # r) = CHR ''$'' # r"
  by (induction b) (auto simp: not_dollar_def)

lemma alt_inline_hit:
  assumes "b \<noteq> []" "CHR ''$'' \<notin> set b"
  shows "alt_inline (CHR ''$'' # b @ CHR ''$'' # r) \<noteq> None"
  using assms
  by (simp add: alt_inline_def takeWhile_not_dollar_app dropWhile_not_dollar_app)

lemma match_here_hit:
  assumes "b \<noteq> []" "CHR ''$'' \<notin> set b"
  shows "match_here i (CHR ''$'' # b @ CHR ''$'' # r) \<noteq> None"
  using alt_inline_hit[OF assms, of r]
  by (auto simp: match_here_def split: option.splits)

lemma search_hit:
  assumes "b \<noteq> []" "CHR ''$'' \<notin> set b"
  shows "search i (p @ CHR ''$'' # b @ CHR ''$'' # r) \<noteq> None"
proof (induction p arbitrary: i)
  case Nil
  from match_here_hit[OF assms, of i r] show ?case
    by (auto split: option.splits)
next
  case (Cons x p)
  then show ?case by (auto split: option.splits)
qed

lemma has_formula_search: "has_formula s \<Longrightarrow> search i s \<noteq> None"
  unfolding has_formula_def using search_hit by blast

lemma search_has_formula:
  assumes "search i s = Some m"
  shows "has_formula s"
proof -
  from search_Some[OF assms]
  have t: "take (length (whole m)) (drop (index m - i) s) = whole m" by simp
  define p where "p = take (index m - i) s"
  define r where "r = drop (length (whole m)) (drop (index m - i) s)"
  have "drop (index m - i) s = whole m @ r"
    using append_take_drop_id[of "length (whole m)" "drop (index m - i) s"]
    by (simp only: t r_def)
  with append_take_drop_id[of "index m - i" s] have s: "s = p @ whole m @ r"
    by (simp only: p_def)
  from search_match_here[OF assms] obtain j u where "match_here j u = Some m" by blast
  from match_here_groups[OF this] show ?thesis
  proof (elim disjE exE conjE)
    fix b
    assume "whole m = ''$$'' @ b @ ''$$''" "b \<noteq> []" "CHR ''$'' \<notin> set b"
    with s have "s = (p @ ''$'') @ CHR ''$'' # b @ CHR ''$'' # (''$'' @ r)
                 \<and> b \<noteq> [] \<and> CHR ''$'' \<notin> set b"
      by simp
    then show ?thesis unfolding has_formula_def by blast
  next
    fix b
    assume "whole m = ''$'' @ b @ ''$''" "b \<noteq> []" "CHR ''$'' \<notin> set b"
    with s have "s = p @ CHR ''$'' # b @ CHR ''$'' # r \<and> b \<noteq> [] \<and> CHR ''$'' \<notin> set b"
      by simp
    then show ?thesis unfolding has_formula_def by blast
  qed
qed

lemma regex_exec_None_iff: "regex_exec s 0 = None \<longleftrightarrow> \<not> has_formula s"
proof
  assume "regex_exec s 0 = None"
  then have "search 0 s = None" by (simp add: regex_exec_def)
  with has_formula_search[of s 0] show "\<not> has_formula s" by blast
next
  assume n: "\<not> has_formula s"
  show "regex_exec s 0 = None"
  proof (cases "search 0 s")
    case None
    then show ?thesis by (simp add: regex_exec_def)
  next
    case (Some m)
    from search_has_formula[OF this] n show ?thesis by simp
  qed
qed

lemma replaceAll_no_dollar:
  "CHR ''$'' \<notin> set s \<Longrightarrow> CHR ''$'' \<notin> set rep \<Longrightarrow> CHR ''$'' \<notin> set (replaceAll pat rep s)"
proof (induction pat rep s rule: replaceAll.induct)
  case (1 pat rep)
  then show ?case by simp
next
  case (2 pat rep c s)
  show ?case
  proof (cases "pat \<noteq> [] \<and> take (length pat) (c # s) = pat")
    case True
    have "set (drop (length pat) (c # s)) \<subseteq> set (c # s)" by (rule set_drop_subset)
    with 2(3) have "CHR ''$'' \<notin> set (drop (length pat) (c # s))" by blast
    from 2(1)[OF True this 2(4)] 2(4) True show ?thesis by simp
  next
    case False
    from 2(3) have "CHR ''$'' \<notin> set s" by simp
    from 2(2)[OF False this 2(4)] 2(3) False show ?thesis by auto
  qed
qed

lemma take_append_dollar:
  assumes "CHR ''$'' \<notin> set pat" "pat \<noteq> []"
  shows "(take (length pat) (a @ CHR ''$'' # c) = pat) = (take (length pat) a = pat)"
proof (cases "length pat \<le> length a")
  case True
  then show ?thesis by simp
next
  case False
  then have l: "length a < length pat" by simp
  have "take (length pat) a \<noteq> pat"
  proof
    assume "take (length pat) a = pat"
    then have "length (take (length pat) a) = length pat" by simp
    with l show False by simp
  qed
  moreover have "take (length pat) (a @ CHR ''$'' # c) \<noteq> pat"
  proof
    assume e: "take (length pat) (a @ CHR ''$'' # c) = pat"
    from l obtain k where k: "length pat - length a = Suc k"
      by (cases "length pat - length a") simp_all
    from l have "take (length pat) (a @ CHR ''$'' # c) = a @ CHR ''$'' # take k c"
      by (simp add: k)
    with e have "CHR ''$'' \<in> set pat" by (metis in_set_conv_decomp)
    with assms show False by simp
  qed
  ultimately show ?thesis by simp
qed

lemma replaceAll_hit:
  assumes "pat \<noteq> [] \<and> take (length pat) (c # s) = pat"
  shows "replaceAll pat rep (c # s) = rep @ replaceAll pat rep (drop (length pat) (c # s))"
  by (subst replaceAll.simps(2)) (rule if_P[OF assms])

lemma replaceAll_miss:
  assumes "\<not> (pat \<noteq> [] \<and> take (length pat) (c # s) = pat)"
  shows "replaceAll pat rep (c # s) = c # replaceAll pat rep s"
  by (subst replaceAll.simps(2)) (rule if_not_P[OF assms])

lemma replaceAll_dollar_split:
  assumes "CHR ''$'' \<notin> set pat"
  shows "replaceAll pat rep (a @ CHR ''$'' # c)
           = replaceAll pat rep a @ CHR ''$'' # replaceAll pat rep c"
  using assms
proof (induction pat rep a rule: replaceAll.induct)
  case (1 pat rep)
  have "\<not> (pat \<noteq> [] \<and> take (length pat) (CHR ''$'' # c) = pat)"
  proof
    assume a: "pat \<noteq> [] \<and> take (length pat) (CHR ''$'' # c) = pat"
    then obtain x xs where p: "pat = x # xs" by (cases pat) auto
    with a have "x = CHR ''$''" by simp
    with p 1 show False by simp
  qed
  from replaceAll_miss[OF this] show ?case
    by (simp only: append_Nil replaceAll.simps(1))
next
  case (2 pat rep x a)
  show ?case
  proof (cases "pat \<noteq> [] \<and> take (length pat) (x # a) = pat")
    case True
    then have "length (take (length pat) (x # a)) = length pat" by simp
    then have le: "length pat \<le> length (x # a)" by simp
    from True have t: "pat \<noteq> [] \<and> take (length pat) (x # (a @ CHR ''$'' # c)) = pat"
      using take_append_dollar[OF 2(3), of "x # a" c] by simp
    have "drop n (xs @ ys) = drop n xs @ ys" if "n \<le> length xs" for n and xs ys :: string
      using that by simp
    from this[OF le] have d: "drop (length pat) (x # (a @ CHR ''$'' # c))
                       = drop (length pat) (x # a) @ CHR ''$'' # c"
      unfolding append_Cons .
    have "replaceAll pat rep ((x # a) @ CHR ''$'' # c)
            = rep @ replaceAll pat rep (drop (length pat) (x # a) @ CHR ''$'' # c)"
      unfolding append_Cons replaceAll_hit[OF t] d ..
    also have "\<dots> = rep @ replaceAll pat rep (drop (length pat) (x # a))
                       @ CHR ''$'' # replaceAll pat rep c"
      by (simp only: 2(1)[OF True 2(3)])
    also have "\<dots> = replaceAll pat rep (x # a) @ CHR ''$'' # replaceAll pat rep c"
      by (simp only: replaceAll_hit[OF True] append_assoc)
    finally show ?thesis .
  next
    case False
    have n: "\<not> (pat \<noteq> [] \<and> take (length pat) (x # (a @ CHR ''$'' # c)) = pat)"
      using False take_append_dollar[OF 2(3), of "x # a" c] unfolding append_Cons by blast
    have "replaceAll pat rep ((x # a) @ CHR ''$'' # c)
            = x # replaceAll pat rep (a @ CHR ''$'' # c)"
      unfolding append_Cons replaceAll_miss[OF n] ..
    also have "\<dots> = x # replaceAll pat rep a @ CHR ''$'' # replaceAll pat rep c"
      by (simp only: 2(2)[OF False 2(3)])
    also have "\<dots> = replaceAll pat rep (x # a) @ CHR ''$'' # replaceAll pat rep c"
      by (simp only: replaceAll_miss[OF False] append_Cons)
    finally show ?thesis .
  qed
qed

lemma first_dollar_unique:
  assumes "x @ CHR ''$'' # y = x' @ CHR ''$'' # y'" "CHR ''$'' \<notin> set x" "CHR ''$'' \<notin> set x'"
  shows "x = x' \<and> y = y'"
proof -
  from assms(1) have "takeWhile not_dollar (x @ CHR ''$'' # y)
                        = takeWhile not_dollar (x' @ CHR ''$'' # y')"
    by (rule arg_cong)
  then have "x = x'"
    by (simp only: takeWhile_not_dollar_app[OF assms(2)] takeWhile_not_dollar_app[OF assms(3)])
  with assms(1) show ?thesis by simp
qed

lemma has_formula_replaceAll:
  assumes "CHR ''$'' \<notin> set pat" "CHR ''$'' \<notin> set rep"
  shows "has_formula (replaceAll pat rep s) \<Longrightarrow> has_formula s"
proof (induction s rule: length_induct)
  case (1 s)
  let ?R = "replaceAll pat rep"
  from 1(2) obtain p' b' r' where d: "?R s = p' @ CHR ''$'' # b' @ CHR ''$'' # r'"
    and b': "b' \<noteq> []" "CHR ''$'' \<notin> set b'"
    unfolding has_formula_def by blast
  have "CHR ''$'' \<in> set s"
  proof (rule ccontr)
    assume "CHR ''$'' \<notin> set s"
    from replaceAll_no_dollar[OF this assms(2), of pat] d show False by simp
  qed
  from split_list_first[OF this] obtain a c where s: "s = a @ CHR ''$'' # c"
    and a: "CHR ''$'' \<notin> set a" by blast
  have Rs: "?R s = ?R a @ CHR ''$'' # ?R c"
    unfolding s by (rule replaceAll_dollar_split[OF assms(1)])
  have Ra: "CHR ''$'' \<notin> set (?R a)"
    by (rule replaceAll_no_dollar[OF a assms(2)])
  show ?case
  proof (cases "CHR ''$'' \<in> set p'")
    case False
    from d Rs have "?R a @ CHR ''$'' # ?R c = p' @ CHR ''$'' # (b' @ CHR ''$'' # r')" by simp
    from first_dollar_unique[OF this Ra False] have Rc: "?R c = b' @ CHR ''$'' # r'" by simp
    have "CHR ''$'' \<in> set c"
    proof (rule ccontr)
      assume "CHR ''$'' \<notin> set c"
      from replaceAll_no_dollar[OF this assms(2), of pat] Rc show False by simp
    qed
    from split_list_first[OF this] obtain a2 c2 where c: "c = a2 @ CHR ''$'' # c2"
      and a2: "CHR ''$'' \<notin> set a2" by blast
    have "?R c = ?R a2 @ CHR ''$'' # ?R c2"
      unfolding c by (rule replaceAll_dollar_split[OF assms(1)])
    with Rc have "?R a2 @ CHR ''$'' # ?R c2 = b' @ CHR ''$'' # r'" by simp
    from first_dollar_unique[OF this replaceAll_no_dollar[OF a2 assms(2)] b'(2)]
    have "?R a2 = b'" by simp
    with b'(1) have "a2 \<noteq> []" by auto
    with s c a2 have "s = a @ CHR ''$'' # a2 @ CHR ''$'' # c2 \<and> a2 \<noteq> [] \<and> CHR ''$'' \<notin> set a2"
      by simp
    then show ?thesis unfolding has_formula_def by blast
  next
    case True
    from split_list_first[OF this] obtain q q' where p': "p' = q @ CHR ''$'' # q'"
      and q: "CHR ''$'' \<notin> set q" by blast
    from d Rs p' have "?R a @ CHR ''$'' # ?R c = q @ CHR ''$'' # (q' @ CHR ''$'' # b' @ CHR ''$'' # r')"
      by simp
    from first_dollar_unique[OF this Ra q]
    have "?R c = q' @ CHR ''$'' # b' @ CHR ''$'' # r'" by simp
    with b' have "has_formula (?R c)" unfolding has_formula_def by blast
    moreover have "length c < length s" by (simp add: s)
    ultimately have "has_formula c" using 1(1) by blast
    then obtain p b r where "c = p @ CHR ''$'' # b @ CHR ''$'' # r" "b \<noteq> []" "CHR ''$'' \<notin> set b"
      unfolding has_formula_def by blast
    with s have "s = (a @ CHR ''$'' # p) @ CHR ''$'' # b @ CHR ''$'' # r \<and> b \<noteq> [] \<and> CHR ''$'' \<notin> set b"
      by simp
    then show ?thesis unfolding has_formula_def by blast
  qed
qed

lemma normalizeLineEndings_no_formula:
  assumes "regex_exec input 0 = None"
  shows "regex_exec (normalizeLineEndings input) 0 = None"
proof -
  have d: "CHR ''$'' \<notin> set [CR, LF]" "CHR ''$'' \<notin> set [CR]" "CHR ''$'' \<notin> set [LF]"
    by (simp_all add: CR_def LF_def)
  from assms have "\<not> has_formula input" by (simp add: regex_exec_None_iff)
  with has_formula_replaceAll[OF d(1) d(3)]
  have "\<not> has_formula (replaceAll [CR, LF] [LF] input)" by blast
  with has_formula_replaceAll[OF d(2) d(3)]
  have "\<not> has_formula (normalizeLineEndings input)"
    unfolding normalizeLineEndings_def by blast
  then show ?thesis by (simp add: regex_exec_None_iff)
qed

section \<open>Where a string can occur\<close>

lemma prefix_replaceAll:
  "prefix p (replaceAll pat rep s) \<Longrightarrow> set p \<inter> set rep = {} \<Longrightarrow> rep \<noteq> [] \<Longrightarrow> prefix p s"
proof (induction pat rep s arbitrary: p rule: replaceAll.induct)
  case (1 pat rep)
  then show ?case by simp
next
  case (2 pat rep c s)
  show ?case
  proof (cases "pat \<noteq> [] \<and> take (length pat) (c # s) = pat")
    case True
    from 2(5) obtain r rs where rep: "rep = r # rs" by (cases rep) auto
    from 2(3) have "prefix p (r # rs @ replaceAll pat rep (drop (length pat) (c # s)))"
      by (simp only: replaceAll_hit[OF True] rep append_Cons)
    then have "p = []"
    proof (cases p)
      case Nil
      then show ?thesis .
    next
      case (Cons x xs)
      assume "prefix p (r # rs @ replaceAll pat rep (drop (length pat) (c # s)))"
      with Cons have "x = r" by simp
      with Cons rep 2(4) show ?thesis by auto
    qed
    then show ?thesis by simp
  next
    case False
    from 2(3) have pc: "prefix p (c # replaceAll pat rep s)"
      by (simp only: replaceAll_miss[OF False])
    show ?thesis
    proof (cases p)
      case Nil
      then show ?thesis by simp
    next
      case (Cons x xs)
      with pc have x: "x = c" and "prefix xs (replaceAll pat rep s)" by simp_all
      moreover from 2(4) Cons have "set xs \<inter> set rep = {}" by auto
      ultimately have "prefix xs s" using 2(2)[OF False _ _ 2(5)] by blast
      with Cons x show ?thesis by simp
    qed
  qed
qed

lemma sublist_replaceAll:
  "sublist p (replaceAll pat rep s) \<Longrightarrow> set p \<inter> set rep = {} \<Longrightarrow> rep \<noteq> [] \<Longrightarrow> p \<noteq> []
     \<Longrightarrow> sublist p s"
proof (induction pat rep s rule: replaceAll.induct)
  case (1 pat rep)
  then show ?case by simp
next
  case (2 pat rep c s)
  show ?case
  proof (cases "pat \<noteq> [] \<and> take (length pat) (c # s) = pat")
    case True
    let ?s' = "drop (length pat) (c # s)"
    from 2(3) have "sublist p (rep @ replaceAll pat rep ?s')"
      by (simp only: replaceAll_hit[OF True])
    then consider "sublist p rep" | "sublist p (replaceAll pat rep ?s')"
      | p1 p2 where "p = p1 @ p2" "suffix p1 rep" "prefix p2 (replaceAll pat rep ?s')"
      unfolding sublist_append by blast
    then have "sublist p (replaceAll pat rep ?s')"
    proof cases
      case 1
      from set_mono_sublist[OF this] 2(4) 2(6) show ?thesis by (cases p) auto
    next
      case 2
      then show ?thesis .
    next
      case 3
      from 3(2) have "set p1 \<subseteq> set rep" by (auto simp: suffix_def)
      with 3(1) 2(4) have "p1 = []" by (cases p1) auto
      with 3 show ?thesis by simp
    qed
    from 2(1)[OF True this 2(4) 2(5) 2(6)] have "sublist p ?s'" .
    moreover have "sublist ?s' (c # s)" by (rule sublist_drop)
    ultimately show ?thesis by (rule sublist_order.order_trans)
  next
    case False
    from 2(3) have "sublist p (c # replaceAll pat rep s)"
      by (simp only: replaceAll_miss[OF False])
    then have "prefix p (c # replaceAll pat rep s) \<or> sublist p (replaceAll pat rep s)"
      by (simp only: sublist_Cons_right)
    then show ?thesis
    proof
      assume "prefix p (c # replaceAll pat rep s)"
      then have "prefix p (replaceAll pat rep (c # s))"
        by (simp only: replaceAll_miss[OF False])
      from prefix_replaceAll[OF this 2(4) 2(5)] show ?thesis by (rule prefix_imp_sublist)
    next
      assume "sublist p (replaceAll pat rep s)"
      from 2(2)[OF False this 2(4) 2(5) 2(6)] show ?thesis
        by (simp add: sublist_Cons_right)
    qed
  qed
qed

lemma sublist_concat_member: "x \<in> set xs \<Longrightarrow> sublist x (concat xs)"
proof (induction xs)
  case Nil
  then show ?case by simp
next
  case (Cons y ys)
  then show ?case
  proof (cases "x = y")
    case True
    then show ?thesis by simp
  next
    case False
    with Cons have "sublist x (concat ys)" by simp
    then show ?thesis by (simp add: sublist_append)
  qed
qed

lemma split_paragraphs_sublist:
  "part \<in> set (split_paragraphs cur s) \<Longrightarrow> sublist part (cur @ s)"
proof (induction cur s rule: split_paragraphs.induct)
  case (1 cur)
  then show ?case by simp
next
  case (2 cur c s)
  show ?case
  proof (cases "c = LF \<and> take 1 s = [LF]")
    case True
    from 2(3) have "part \<in> set (cur # split_paragraphs [] (dropWhile (\<lambda>x. x = LF) s))"
      unfolding split_paragraphs.simps(2)[of cur c s] if_P[OF True] .
    then have "part = cur \<or> part \<in> set (split_paragraphs [] (dropWhile (\<lambda>x. x = LF) s))"
      by simp
    then show ?thesis
    proof
      assume "part = cur"
      then show ?thesis by simp
    next
      assume "part \<in> set (split_paragraphs [] (dropWhile (\<lambda>x. x = LF) s))"
      from 2(1)[OF True this] have "sublist part (dropWhile (\<lambda>x. x = LF) s)" by simp
      moreover have "sublist (dropWhile (\<lambda>x. x = LF) s) s" by (rule sublist_dropWhile)
      moreover have "sublist s (cur @ c # s)"
        using sublist_append_leftI[of s "cur @ [c]"] by simp
      ultimately show ?thesis
        using sublist_order.order_trans by blast
    qed
  next
    case False
    from 2(3) have "part \<in> set (split_paragraphs (cur @ [c]) s)"
      unfolding split_paragraphs.simps(2)[of cur c s] if_not_P[OF False] .
    from 2(2)[OF False this] show ?thesis by simp
  qed
qed

section \<open>Tokens against the text\<close>

lemma prefix_in_token: "sublist placeholder_prefix (placeholder_token k)"
  unfolding placeholder_token_def by (rule sublist_append_rightI)

lemma token_M: "filter (\<lambda>c. c = CHR ''M'') (placeholder_token k) = ''M''"
proof -
  have "filter (\<lambda>c. c = CHR ''M'') (show_nat k) = []"
    using show_nat_no_M[of k] by (auto simp: filter_empty_conv)
  then show ?thesis
    by (simp add: placeholder_token_def placeholder_prefix_def)
qed

lemma token_before_M: "takeWhile (\<lambda>c. c \<noteq> CHR ''M'') (placeholder_token k @ ss) = ''__''"
  by (simp add: placeholder_token_def placeholder_prefix_def)

lemma takeWhile_until:
  "c \<notin> set b \<Longrightarrow> takeWhile (\<lambda>x. x \<noteq> c) (b @ c # r) = b"
  by (induction b) auto

lemma token_sublist_token:
  assumes "sublist (placeholder_token k) (placeholder_token n)"
  shows "k = n"
proof -
  from assms obtain ps ss where d: "placeholder_token n = ps @ placeholder_token k @ ss"
    unfolding sublist_def by blast
  have "filter (\<lambda>c. c = CHR ''M'') (placeholder_token n)
          = filter (\<lambda>c. c = CHR ''M'') ps @ ''M'' @ filter (\<lambda>c. c = CHR ''M'') ss"
    by (subst d) (simp only: filter_append token_M)
  then have "filter (\<lambda>c. c = CHR ''M'') ps = []"
    by (cases "filter (\<lambda>c. c = CHR ''M'') ps") (simp_all add: token_M)
  then have noM: "\<forall>c \<in> set ps. c \<noteq> CHR ''M''"
    by (simp add: filter_empty_conv)
  have "takeWhile (\<lambda>c. c \<noteq> CHR ''M'') (ps @ placeholder_token k @ ss)
          = ps @ takeWhile (\<lambda>c. c \<noteq> CHR ''M'') (placeholder_token k @ ss)"
    using noM by (simp add: takeWhile_append2)
  with d token_before_M[of n "[]"] token_before_M[of k ss]
  have "''__'' = ps @ ''__''" by simp
  then have "ps = []" by simp
  with d have "placeholder_prefix @ show_nat n @ ''__''
                 = placeholder_prefix @ show_nat k @ ''__'' @ ss"
    by (simp add: placeholder_token_def)
  then have e: "show_nat n @ ''__'' = show_nat k @ ''__'' @ ss" by simp
  have tw: "takeWhile (\<lambda>c. c \<noteq> CHR ''_'') (show_nat j @ CHR ''_'' # r) = show_nat j" for j r
    by (rule takeWhile_until[OF show_nat_no_underscore])
  from e have "takeWhile (\<lambda>c. c \<noteq> CHR ''_'') (show_nat n @ CHR ''_'' # ''_'')
                 = takeWhile (\<lambda>c. c \<noteq> CHR ''_'') (show_nat k @ CHR ''_'' # (''_'' @ ss))"
    by simp
  then have "show_nat n = show_nat k" by (simp only: tw)
  from show_nat_inj[OF this] show ?thesis by simp
qed

lemma prefix_chars:
  "set placeholder_prefix \<inter> set [LF] = {}"
  "set placeholder_prefix \<inter> set '' '' = {}"
  "placeholder_prefix \<noteq> []"
  by (simp_all add: placeholder_prefix_def LF_def)

lemma prefix_normalizeLineEndings:
  assumes "sublist placeholder_prefix (normalizeLineEndings input)"
  shows "sublist placeholder_prefix input"
proof -
  have ne: "[LF] \<noteq> []" by simp
  from assms have "sublist placeholder_prefix (replaceAll [CR] [LF] (replaceAll [CR, LF] [LF] input))"
    unfolding normalizeLineEndings_def .
  from sublist_replaceAll[OF this prefix_chars(1) ne prefix_chars(3)]
  have "sublist placeholder_prefix (replaceAll [CR, LF] [LF] input)" .
  from sublist_replaceAll[OF this prefix_chars(1) ne prefix_chars(3)]
  show ?thesis .
qed

lemma span_items_text:
  assumes "TextItem v \<in> set (span_items render mathmlToOmml x)"
  shows "v = span_source x"
proof (cases x)
  case (Text t)
  with assms show ?thesis by (simp split: if_splits)
next
  case (Formula m)
  with assms show ?thesis
    by (auto simp: convert_item_def split: option.splits)
qed

lemma parse_items_text_sublist:
  assumes "TextItem v \<in> set (parse_items render mathmlToOmml text)"
  shows "sublist v text"
proof -
  from assms obtain x where x: "x \<in> set (segment text)"
    and "TextItem v \<in> set (span_items render mathmlToOmml x)"
    unfolding parse_items_spans by auto
  from span_items_text[OF this(2)] have "v = span_source x" .
  with x have "v \<in> set (map span_source (segment text))" by simp
  from sublist_concat_member[OF this] show ?thesis
    by (simp only: segment_source)
qed

lemma text_runs_prefix:
  assumes "r \<in> set (text_runs v)" "sublist placeholder_prefix (run_text r)"
  shows "sublist placeholder_prefix v"
proof -
  from assms(1) obtain part where part: "part \<in> set (split_paragraphs [] v)"
    and r: "r = TextRun (replaceAll [LF] '' '' part)"
    unfolding text_runs_def by auto
  from assms(2) r have "sublist placeholder_prefix (replaceAll [LF] '' '' part)" by simp
  moreover have "'' '' \<noteq> []" by simp
  ultimately have "sublist placeholder_prefix part"
    using sublist_replaceAll[OF _ prefix_chars(2) _ prefix_chars(3)] by blast
  moreover from split_paragraphs_sublist[OF part] have "sublist part v" by simp
  ultimately show ?thesis by (rule sublist_order.order_trans)
qed

lemma text_runs_no_token:
  assumes "\<not> sublist placeholder_prefix v"
  shows "filter (\<lambda>r. sublist (placeholder_token k) (run_text r)) (text_runs v) = []"
proof -
  have "\<not> sublist (placeholder_token k) (run_text r)" if "r \<in> set (text_runs v)" for r
  proof
    assume "sublist (placeholder_token k) (run_text r)"
    with prefix_in_token[of k] have "sublist placeholder_prefix (run_text r)"
      by (rule sublist_order.order_trans)
    from text_runs_prefix[OF that this] assms show False by simp
  qed
  then show ?thesis by (simp add: filter_empty_conv)
qed

lemma runs_from_count:
  "prefix_free items \<Longrightarrow>
     length (filter (\<lambda>r. sublist (placeholder_token k) (run_text r)) (runs_from n items))
       = (if n \<le> k \<and> k < n + length (filter is_math items) then 1 else 0)"
proof (induction items arbitrary: n)
  case Nil
  then show ?case by simp
next
  case (Cons item items)
  from Cons.prems have pf: "prefix_free items" by (simp add: prefix_free_def)
  note ih = Cons.IH[OF pf]
  show ?case
  proof (cases item)
    case (TextItem v)
    with Cons.prems have "\<not> sublist placeholder_prefix v" by (simp add: prefix_free_def)
    from text_runs_no_token[OF this, of k] TextItem ih[of n] show ?thesis by simp
  next
    case (MathItem omml isBlock)
    have "sublist (placeholder_token k) (placeholder_token n) \<longleftrightarrow> k = n"
      using token_sublist_token[of k n] by auto
    with MathItem ih[of "Suc n"] show ?thesis by auto
  qed
qed

lemma parse_items_prefix_free:
  assumes "\<not> sublist placeholder_prefix input"
  shows "prefix_free (parse_items render mathmlToOmml (normalizeLineEndings input))"
  unfolding prefix_free_def
proof (intro allI impI notI)
  fix v
  assume "TextItem v \<in> set (parse_items render mathmlToOmml (normalizeLineEndings input))"
    and "sublist placeholder_prefix v"
  from this(2) parse_items_text_sublist[OF this(1)]
  have "sublist placeholder_prefix (normalizeLineEndings input)"
    by (rule sublist_order.order_trans)
  from prefix_normalizeLineEndings[OF this] assms show False by simp
qed

section \<open>What the substitution does to a placeholder run\<close>

lemma expect_hit: "expect lit (lit @ r) = Some r"
  by (simp add: expect_def)

lemma dropWhile_not_gt:
  "CHR ''>'' \<notin> set a \<Longrightarrow> dropWhile not_gt (a @ CHR ''>'' # r) = CHR ''>'' # r"
  by (induction a) (auto simp: not_gt_def)

lemma dropWhile_is_space:
  "\<forall>c \<in> set w. is_space c \<Longrightarrow> dropWhile is_space (w @ CHR ''<'' # r) = CHR ''<'' # r"
  by (induction w) (auto simp: is_space_def)

text \<open>
  A run element whose text is exactly the token, with any attributes on the two tags and
  white space around the text element, is matched as a whole.
\<close>

lemma match_run_token_run:
  assumes "CHR ''>'' \<notin> set a" "CHR ''>'' \<notin> set b"
    and "\<forall>c \<in> set w. is_space c" "\<forall>c \<in> set w'. is_space c"
  shows "match_run tok
           (''<w:r'' @ a @ ''>'' @ w @ ''<w:t'' @ b @ ''>'' @ tok @ ''</w:t>'' @ w' @ ''</w:r>'' @ rest)
         = Some rest"
proof -
  have 1: "expect ''<w:r'' (''<w:r'' @ a @ ''>'' @ w @ ''<w:t'' @ b @ ''>'' @ tok @ ''</w:t>'' @ w' @ ''</w:r>'' @ rest)
             = Some (a @ ''>'' @ w @ ''<w:t'' @ b @ ''>'' @ tok @ ''</w:t>'' @ w' @ ''</w:r>'' @ rest)"
    by (rule expect_hit)
  have 2: "dropWhile not_gt (a @ ''>'' @ w @ ''<w:t'' @ b @ ''>'' @ tok @ ''</w:t>'' @ w' @ ''</w:r>'' @ rest)
             = ''>'' @ w @ ''<w:t'' @ b @ ''>'' @ tok @ ''</w:t>'' @ w' @ ''</w:r>'' @ rest"
    using dropWhile_not_gt[OF assms(1)] by simp
  have 3: "expect ''>'' (''>'' @ w @ ''<w:t'' @ b @ ''>'' @ tok @ ''</w:t>'' @ w' @ ''</w:r>'' @ rest)
             = Some (w @ ''<w:t'' @ b @ ''>'' @ tok @ ''</w:t>'' @ w' @ ''</w:r>'' @ rest)"
    by (rule expect_hit)
  have 4: "dropWhile is_space (w @ ''<w:t'' @ b @ ''>'' @ tok @ ''</w:t>'' @ w' @ ''</w:r>'' @ rest)
             = ''<w:t'' @ b @ ''>'' @ tok @ ''</w:t>'' @ w' @ ''</w:r>'' @ rest"
    using dropWhile_is_space[OF assms(3)] by simp
  have 5: "expect ''<w:t'' (''<w:t'' @ b @ ''>'' @ tok @ ''</w:t>'' @ w' @ ''</w:r>'' @ rest)
             = Some (b @ ''>'' @ tok @ ''</w:t>'' @ w' @ ''</w:r>'' @ rest)"
    by (rule expect_hit)
  have 6: "dropWhile not_gt (b @ ''>'' @ tok @ ''</w:t>'' @ w' @ ''</w:r>'' @ rest)
             = ''>'' @ tok @ ''</w:t>'' @ w' @ ''</w:r>'' @ rest"
    using dropWhile_not_gt[OF assms(2)] by simp
  have 7: "expect ''>'' (''>'' @ tok @ ''</w:t>'' @ w' @ ''</w:r>'' @ rest)
             = Some (tok @ ''</w:t>'' @ w' @ ''</w:r>'' @ rest)"
    by (rule expect_hit)
  have 8: "expect tok (tok @ ''</w:t>'' @ w' @ ''</w:r>'' @ rest)
             = Some (''</w:t>'' @ w' @ ''</w:r>'' @ rest)"
    by (rule expect_hit)
  have 9: "expect ''</w:t>'' (''</w:t>'' @ w' @ ''</w:r>'' @ rest) = Some (w' @ ''</w:r>'' @ rest)"
    by (rule expect_hit)
  have 10: "dropWhile is_space (w' @ ''</w:r>'' @ rest) = ''</w:r>'' @ rest"
    using dropWhile_is_space[OF assms(4)] by simp
  have 11: "expect ''</w:r>'' (''</w:r>'' @ rest) = Some rest"
    by (rule expect_hit)
  show ?thesis
    unfolding match_run_def
    by (simp only: 1 2 3 4 5 6 7 8 9 10 11 Option.bind.simps)
qed

lemma get_substitution_literal:
  "literal_text replacement \<Longrightarrow>
     get_substitution matched preceding following replacement = replacement"
  by (induction matched preceding following replacement rule: get_substitution.induct) auto

lemma literal_text_no_dollar: "CHR ''$'' \<notin> set s \<Longrightarrow> literal_text s"
  by (induction s rule: literal_text.induct) auto

text \<open>
  So the replacement puts the fragment in the place of the whole run element and goes on
  behind it (for a fragment without a pattern that the replacement text would expand).
\<close>

lemma replace_runs_token_run:
  assumes "CHR ''>'' \<notin> set a" "CHR ''>'' \<notin> set b"
    and "\<forall>c \<in> set w. is_space c" "\<forall>c \<in> set w'. is_space c"
    and "literal_text omml"
  shows "replace_runs tok omml passed
           (''<w:r'' @ a @ ''>'' @ w @ ''<w:t'' @ b @ ''>'' @ tok @ ''</w:t>'' @ w' @ ''</w:r>'' @ rest)
         = omml @ replace_runs tok omml
             (passed @ ''<w:r'' @ a @ ''>'' @ w @ ''<w:t'' @ b @ ''>'' @ tok @ ''</w:t>'' @ w' @ ''</w:r>'')
             rest"
proof -
  define run where
    "run = ''<w:r'' @ a @ ''>'' @ w @ ''<w:t'' @ b @ ''>'' @ tok @ ''</w:t>'' @ w' @ ''</w:r>''"
  have m: "match_run tok (run @ rest) = Some rest"
    using match_run_token_run[OF assms(1-4), of tok rest] by (simp add: run_def)
  obtain c s where cs: "run @ rest = c # s"
    by (simp add: run_def)
  have t: "take (length (c # s) - length rest) (c # s) = run"
    unfolding cs[symmetric] by simp
  have "replace_runs tok omml passed (c # s)
          = get_substitution run passed rest omml @ replace_runs tok omml (passed @ run) rest"
    using m[unfolded cs] t by (simp add: Let_def del: take_Cons' length_Cons)
  then show ?thesis
    unfolding cs[symmetric] get_substitution_literal[OF assms(5)] by (simp add: run_def)
qed

lemma substitute_example:
  "substitute [(''__MATH_PLACEHOLDER_0__'', ''<m:oMath/>'')]
     ''<w:p><w:r><w:t>__MATH_PLACEHOLDER_0__</w:t></w:r></w:p>''
   = ''<w:p><m:oMath/></w:p>''"
  by code_simp

section \<open>The substitution on a body\<close>

lemma token_no_lt: "CHR ''<'' \<notin> set (placeholder_token k)"
  using show_nat_digits[of k] by (auto simp: placeholder_token_def placeholder_prefix_def)

lemma prefix_no_gt: "CHR ''>'' \<notin> set placeholder_prefix"
  by (simp add: placeholder_prefix_def)

lemma replace_runs_passed:
  "literal_text omml \<Longrightarrow>
     replace_runs tok omml passed s = replace_runs tok omml [] s"
proof (induction s arbitrary: passed rule: length_induct)
  case (1 s)
  show ?case
  proof (cases s)
    case Nil
    then show ?thesis by simp
  next
    case (Cons c s')
    show ?thesis
    proof (cases "match_run tok (c # s')")
      case None
      have "length s' < length s" by (simp add: Cons)
      with 1 have "replace_runs tok omml (passed @ [c]) s' = replace_runs tok omml [] s'"
        and "replace_runs tok omml ([] @ [c]) s' = replace_runs tok omml [] s'"
        by blast+
      with None Cons show ?thesis by simp
    next
      case (Some rest)
      from match_run_shorter[OF Some] have "length rest < length s" by (simp add: Cons)
      with 1 have e: "replace_runs tok omml p rest = replace_runs tok omml [] rest" for p
        by blast
      from Some Cons show ?thesis
        by (simp add: Let_def get_substitution_literal[OF 1(2)] e[of "passed @ _"] e[of "take _ _"]
              del: take_Cons' length_Cons)
    qed
  qed
qed

lemma skip_none:
  "match_run tok (c # s) = None \<Longrightarrow>
     replace_runs tok omml [] (c # s) = c # replace_runs tok omml [c] s"
  by simp

lemma match_run_not_lt: "c \<noteq> CHR ''<'' \<Longrightarrow> match_run tok (c # s) = None"
  by (simp add: match_run_def expect_def)

lemma skip_nonlt:
  assumes "literal_text omml"
  shows "CHR ''<'' \<notin> set x \<Longrightarrow>
     replace_runs tok omml [] (x @ s) = x @ replace_runs tok omml [] s"
proof (induction x)
  case Nil
  then show ?case by simp
next
  case (Cons c x)
  from Cons.prems have "c \<noteq> CHR ''<''" by auto
  then have "match_run tok (c # (x @ s)) = None" by (rule match_run_not_lt)
  from skip_none[OF this, of omml] have
    "replace_runs tok omml [] ((c # x) @ s) = c # replace_runs tok omml [c] (x @ s)"
    by simp
  also have "replace_runs tok omml [c] (x @ s) = replace_runs tok omml [] (x @ s)"
    by (rule replace_runs_passed[OF assms])
  also have "\<dots> = x @ replace_runs tok omml [] s"
    using Cons by simp
  finally show ?case by simp
qed

text \<open>Stepping through a stretch of markup that ends with the end of a tag.\<close>

lemma expect_inside:
  assumes "u \<noteq> []" "last u = CHR ''>''" "CHR ''>'' \<notin> set lit"
    and "expect lit (u @ v) = Some s"
  shows "\<exists>u'. u = lit @ u' \<and> u' \<noteq> [] \<and> last u' = CHR ''>'' \<and> s = u' @ v"
proof -
  from assms(4) have t: "take (length lit) (u @ v) = lit" and s: "s = drop (length lit) (u @ v)"
    by (auto simp: expect_def split: if_splits)
  have lt: "length lit < length u"
  proof (rule ccontr)
    assume "\<not> length lit < length u"
    then have le: "length u \<le> length lit" by simp
    from t have "take (length u) (take (length lit) (u @ v)) = take (length u) lit" by simp
    with le have "u = take (length u) lit" by (simp add: min_def)
    then have "set u \<subseteq> set lit" by (metis set_take_subset)
    moreover from assms(1,2) have "CHR ''>'' \<in> set u" by (metis last_in_set)
    ultimately show False using assms(3) by blast
  qed
  define u' where "u' = drop (length lit) u"
  from lt t have "take (length lit) u = lit" by simp
  then have u: "u = lit @ u'"
    unfolding u'_def by (metis append_take_drop_id)
  from lt have ne: "u' \<noteq> []" by (simp add: u'_def)
  from lt assms(2) have "last u' = CHR ''>''" by (simp add: u'_def last_drop)
  moreover from lt s have "s = u' @ v" by (simp add: u'_def)
  ultimately show ?thesis using u ne by blast
qed

lemma gt_inside:
  assumes "u \<noteq> []" "last u = CHR ''>''"
    and "expect ''>'' (dropWhile not_gt (u @ v)) = Some s"
  shows "\<exists>y. suffix y u \<and> (y = [] \<or> last y = CHR ''>'') \<and> s = y @ v"
proof -
  from assms(1,2) have m: "CHR ''>'' \<in> set u" by (metis last_in_set)
  have n: "\<not> not_gt (CHR ''>'')" by (simp add: not_gt_def)
  from m n have d: "dropWhile not_gt (u @ v) = dropWhile not_gt u @ v"
    by (rule dropWhile_append1)
  from m n have ne: "dropWhile not_gt u \<noteq> []"
    by (auto simp: dropWhile_eq_Nil_conv)
  then obtain x y where xy: "dropWhile not_gt u = x # y" by (cases "dropWhile not_gt u") auto
  from assms(3) have "x = CHR ''>''" and s: "s = y @ v"
    unfolding d xy by (auto simp: expect_def split: if_splits)
  have su: "suffix (x # y) u" unfolding xy[symmetric] by (rule suffix_dropWhile)
  then have sy: "suffix y u" by (rule suffix_ConsD)
  have "y = [] \<or> last y = CHR ''>''"
  proof (cases y)
    case Nil
    then show ?thesis by simp
  next
    case (Cons a b)
    from su obtain p where "u = p @ x # y" by (auto simp: suffix_def)
    with Cons assms(2) show ?thesis by simp
  qed
  with sy s show ?thesis by blast
qed

lemma space_inside:
  assumes "y \<noteq> []" "last y = CHR ''>''"
  shows "\<exists>y'. dropWhile is_space (y @ v) = y' @ v \<and> suffix y' y \<and> y' \<noteq> [] \<and> last y' = CHR ''>''"
proof -
  from assms have m: "CHR ''>'' \<in> set y" by (metis last_in_set)
  have n: "\<not> is_space (CHR ''>'')" by (simp add: is_space_def)
  from m n have d: "dropWhile is_space (y @ v) = dropWhile is_space y @ v"
    by (rule dropWhile_append1)
  from m n have ne: "dropWhile is_space y \<noteq> []"
    by (auto simp: dropWhile_eq_Nil_conv)
  have su: "suffix (dropWhile is_space y) y" by (rule suffix_dropWhile)
  then obtain p where "y = p @ dropWhile is_space y" by (auto simp: suffix_def)
  with ne assms(2) have "last (dropWhile is_space y) = CHR ''>''"
    by (metis last_appendR)
  with d su ne show ?thesis by blast
qed

lemma run_next_no_text: "run_next v \<Longrightarrow> expect ''<w:t'' (dropWhile is_space v) = None"
proof (cases v)
  case Nil
  then show ?thesis by (simp add: expect_def)
next
  case (Cons c v')
  assume "run_next v"
  with Cons have c: "c = CHR ''<''" and t: "take 3 v' = ''w:r''"
    by (auto simp: run_next_def)
  have "\<not> is_space c" by (simp add: c is_space_def)
  then have "dropWhile is_space v = c # v'" by (simp add: Cons)
  with c t show ?thesis by (auto simp: expect_def numeral_3_eq_3)
qed

lemma chunk_no_match:
  assumes "u \<noteq> []" "last u = CHR ''>''"
    and "\<not> sublist (placeholder_token k) u" and "run_next v"
  shows "match_run (placeholder_token k) (u @ v) = None"
proof (rule ccontr)
  let ?tok = "placeholder_token k"
  assume "match_run ?tok (u @ v) \<noteq> None"
  then obtain r where m: "match_run ?tok (u @ v) = Some r" by blast
  from m obtain s1 where s1: "expect ''<w:r'' (u @ v) = Some s1"
    by (auto simp: match_run_def split: Option.bind_splits)
  from m s1 obtain s2 where s2: "expect ''>'' (dropWhile not_gt s1) = Some s2"
    by (auto simp: match_run_def split: Option.bind_splits)
  from m s1 s2 obtain s3 where s3: "expect ''<w:t'' (dropWhile is_space s2) = Some s3"
    by (auto simp: match_run_def split: Option.bind_splits)
  from m s1 s2 s3 obtain s4 where s4: "expect ''>'' (dropWhile not_gt s3) = Some s4"
    by (auto simp: match_run_def split: Option.bind_splits)
  from m s1 s2 s3 s4 obtain s5 where s5: "expect ?tok s4 = Some s5"
    by (auto simp: match_run_def split: Option.bind_splits)
  have g: "CHR ''>'' \<notin> set ''<w:r''" "CHR ''>'' \<notin> set ''<w:t''" by simp_all
  from expect_inside[OF assms(1,2) g(1) s1] obtain u1
    where u1: "u = ''<w:r'' @ u1" "u1 \<noteq> []" "last u1 = CHR ''>''" "s1 = u1 @ v" by blast
  from gt_inside[OF u1(2,3) s2[unfolded u1(4)]] obtain y
    where y: "suffix y u1" "y = [] \<or> last y = CHR ''>''" "s2 = y @ v" by blast
  have yne: "y \<noteq> []"
  proof
    assume "y = []"
    with y(3) s3 run_next_no_text[OF assms(4)] show False by simp
  qed
  with y(2) have yl: "last y = CHR ''>''" by simp
  from space_inside[OF yne yl, of v] obtain y'
    where y': "dropWhile is_space (y @ v) = y' @ v" "suffix y' y" "y' \<noteq> []" "last y' = CHR ''>''"
    by blast
  from s3 have "expect ''<w:t'' (y' @ v) = Some s3" by (simp only: y(3) y'(1))
  from expect_inside[OF y'(3,4) g(2) this] obtain y2
    where y2: "y' = ''<w:t'' @ y2" "y2 \<noteq> []" "last y2 = CHR ''>''" "s3 = y2 @ v" by blast
  from gt_inside[OF y2(2,3) s4[unfolded y2(4)]] obtain z
    where z: "suffix z y2" "s4 = z @ v" by blast
  have "suffix z u"
  proof -
    have "suffix y2 y'" by (simp add: y2(1) suffix_def)
    moreover have "suffix u1 u" by (simp add: u1(1) suffix_def)
    ultimately show ?thesis
      using z(1) y'(2) y(1) by (meson suffix_order.order_trans)
  qed
  then have zu: "sublist z u" by (rule suffix_imp_sublist)
  from s5 have t: "take (length ?tok) (z @ v) = ?tok"
    by (auto simp: expect_def z(2) split: if_splits)
  show False
  proof (cases "length ?tok \<le> length z")
    case True
    with t have "take (length ?tok) z = ?tok" by simp
    then have "prefix ?tok z" by (metis take_is_prefix)
    then have "sublist ?tok z" by (rule prefix_imp_sublist)
    then have "sublist ?tok u" using zu by (rule sublist_order.order_trans)
    with assms(3) show False by simp
  next
    case False
    then obtain n where n: "length ?tok - length z = Suc n"
      by (cases "length ?tok - length z") simp_all
    from False t have e: "z @ take (Suc n) v = ?tok" by (simp add: n)
    show False
    proof (cases v)
      case Nil
      with e False show False by auto
    next
      case (Cons c v')
      with assms(4) have "c = CHR ''<''" by (auto simp: run_next_def)
      with e Cons have "CHR ''<'' \<in> set ?tok" by (metis in_set_conv_decomp take_Suc_Cons)
      with token_no_lt[of k] show False by simp
    qed
  qed
qed

lemma chunk_skip:
  assumes "literal_text omml" "run_next v"
  shows "u = [] \<or> last u = CHR ''>'' \<Longrightarrow> \<not> sublist (placeholder_token k) u \<Longrightarrow>
     replace_runs (placeholder_token k) omml [] (u @ v)
       = u @ replace_runs (placeholder_token k) omml [] v"
proof (induction u)
  case Nil
  then show ?case by simp
next
  case (Cons c u)
  let ?tok = "placeholder_token k"
  from Cons.prems(1) have l: "last (c # u) = CHR ''>''" by simp
  have "match_run ?tok ((c # u) @ v) = None"
    by (rule chunk_no_match[OF _ l Cons.prems(2) assms(2)]) simp
  then have "match_run ?tok (c # (u @ v)) = None" by simp
  from skip_none[OF this, of omml]
  have "replace_runs ?tok omml [] ((c # u) @ v) = c # replace_runs ?tok omml [c] (u @ v)"
    by simp
  also have "replace_runs ?tok omml [c] (u @ v) = replace_runs ?tok omml [] (u @ v)"
    by (rule replace_runs_passed[OF assms(1)])
  also have "\<dots> = u @ replace_runs ?tok omml [] v"
  proof (rule Cons.IH)
    from l show "u = [] \<or> last u = CHR ''>''" by (cases u) simp_all
    show "\<not> sublist ?tok u"
    proof
      assume "sublist ?tok u"
      then have "sublist ?tok (c # u)" by (simp add: sublist_Cons_right)
      with Cons.prems(2) show False by simp
    qed
  qed
  finally show ?case by simp
qed

text \<open>A run element that holds another token is left as it is.\<close>

lemma expect_other_token:
  assumes "expect (placeholder_token k) (placeholder_token j @ CHR ''<'' # rest) = Some s"
  shows "k = j"
proof -
  let ?tk = "placeholder_token k" and ?tj = "placeholder_token j"
  from assms have t: "take (length ?tk) (?tj @ CHR ''<'' # rest) = ?tk"
    by (auto simp: expect_def split: if_splits)
  show ?thesis
  proof (cases "length ?tk \<le> length ?tj")
    case True
    with t have "take (length ?tk) ?tj = ?tk" by simp
    then have "prefix ?tk ?tj" by (metis take_is_prefix)
    then have "sublist ?tk ?tj" by (rule prefix_imp_sublist)
    then show ?thesis by (rule token_sublist_token)
  next
    case False
    then obtain n where n: "length ?tk - length ?tj = Suc n"
      by (cases "length ?tk - length ?tj") simp_all
    from False t have "?tj @ CHR ''<'' # take n rest = ?tk" by (simp add: n)
    then have "CHR ''<'' \<in> set ?tk" by (metis in_set_conv_decomp)
    with token_no_lt[of k] show ?thesis by simp
  qed
qed

lemma match_run_other:
  assumes "CHR ''>'' \<notin> set a" "CHR ''>'' \<notin> set b"
    and "\<forall>c \<in> set w. is_space c" and "k \<noteq> j"
  shows "match_run (placeholder_token k)
           (''<w:r'' @ a @ ''>'' @ w @ ''<w:t'' @ b @ ''>'' @ placeholder_token j @ ''</w:t>'' @ rest)
         = None"
proof -
  let ?tj = "placeholder_token j"
  have 1: "expect ''<w:r'' (''<w:r'' @ a @ ''>'' @ w @ ''<w:t'' @ b @ ''>'' @ ?tj @ ''</w:t>'' @ rest)
             = Some (a @ ''>'' @ w @ ''<w:t'' @ b @ ''>'' @ ?tj @ ''</w:t>'' @ rest)"
    by (rule expect_hit)
  have 2: "dropWhile not_gt (a @ ''>'' @ w @ ''<w:t'' @ b @ ''>'' @ ?tj @ ''</w:t>'' @ rest)
             = ''>'' @ w @ ''<w:t'' @ b @ ''>'' @ ?tj @ ''</w:t>'' @ rest"
    using dropWhile_not_gt[OF assms(1)] by simp
  have 3: "expect ''>'' (''>'' @ w @ ''<w:t'' @ b @ ''>'' @ ?tj @ ''</w:t>'' @ rest)
             = Some (w @ ''<w:t'' @ b @ ''>'' @ ?tj @ ''</w:t>'' @ rest)"
    by (rule expect_hit)
  have 4: "dropWhile is_space (w @ ''<w:t'' @ b @ ''>'' @ ?tj @ ''</w:t>'' @ rest)
             = ''<w:t'' @ b @ ''>'' @ ?tj @ ''</w:t>'' @ rest"
    using dropWhile_is_space[OF assms(3)] by simp
  have 5: "expect ''<w:t'' (''<w:t'' @ b @ ''>'' @ ?tj @ ''</w:t>'' @ rest)
             = Some (b @ ''>'' @ ?tj @ ''</w:t>'' @ rest)"
    by (rule expect_hit)
  have 6: "dropWhile not_gt (b @ ''>'' @ ?tj @ ''</w:t>'' @ rest)
             = ''>'' @ ?tj @ ''</w:t>'' @ rest"
    using dropWhile_not_gt[OF assms(2)] by simp
  have 7: "expect ''>'' (''>'' @ ?tj @ ''</w:t>'' @ rest) = Some (?tj @ ''</w:t>'' @ rest)"
    by (rule expect_hit)
  have 8: "expect (placeholder_token k) (?tj @ ''</w:t>'' @ rest) = None"
  proof (cases "expect (placeholder_token k) (?tj @ ''</w:t>'' @ rest)")
    case None
    then show ?thesis .
  next
    case (Some s)
    then have "expect (placeholder_token k) (?tj @ CHR ''<'' # (''/w:t>'' @ rest)) = Some s"
      by simp
    then have "k = j" by (rule expect_other_token)
    with assms(4) show ?thesis by simp
  qed
  show ?thesis
    unfolding match_run_def
    by (simp only: 1 2 3 4 5 6 7 8 Option.bind.simps)
qed

lemma match_run_no_start: "expect ''<w:r'' s = None \<Longrightarrow> match_run tok s = None"
  by (simp add: match_run_def)

lemma skip_tag:
  assumes "literal_text omml" "match_run tok (c # x @ s) = None" "CHR ''<'' \<notin> set x"
  shows "replace_runs tok omml [] (c # x @ s) = c # x @ replace_runs tok omml [] s"
proof -
  have "replace_runs tok omml [] (c # x @ s) = c # replace_runs tok omml [c] (x @ s)"
    using assms(2) by (rule skip_none)
  also have "replace_runs tok omml [c] (x @ s) = replace_runs tok omml [] (x @ s)"
    by (rule replace_runs_passed[OF assms(1)])
  also have "\<dots> = x @ replace_runs tok omml [] s"
    by (rule skip_nonlt[OF assms(1,3)])
  finally show ?thesis by simp
qed

lemma space_no_lt: "list_all is_space w \<Longrightarrow> CHR ''<'' \<notin> set w"
  by (induction w) (auto simp: is_space_def)

lemma run_other:
  assumes "literal_text omml" "run_ok r" "token_index r \<noteq> k"
  shows "replace_runs (placeholder_token k) omml [] (run_xml r @ v)
           = run_xml r @ replace_runs (placeholder_token k) omml [] v"
proof -
  let ?tok = "placeholder_token k"
  define x1 where "x1 = ''w:r'' @ run_attrs r @ ''>'' @ run_space r"
  define x2 where "x2 = ''w:t'' @ text_attrs r @ ''>'' @ placeholder_token (token_index r)"
  define x3 where "x3 = ''/w:t>'' @ text_space r"
  define x4 where "x4 = ''/w:r>''"
  define v3 where "v3 = CHR ''<'' # x4 @ v"
  define v2 where "v2 = CHR ''<'' # x3 @ v3"
  define v1 where "v1 = CHR ''<'' # x2 @ v2"
  from assms(2) have a: "CHR ''<'' \<notin> set (run_attrs r)" "CHR ''>'' \<notin> set (run_attrs r)"
    "CHR ''<'' \<notin> set (text_attrs r)" "CHR ''>'' \<notin> set (text_attrs r)"
    and w: "list_all is_space (run_space r)" "list_all is_space (text_space r)"
    by (simp_all add: run_ok_def attrs_ok_def)
  have run: "run_xml r @ v = CHR ''<'' # x1 @ v1"
    by (simp add: run_xml_def x1_def x2_def x3_def x4_def v1_def v2_def v3_def)
  have l1: "CHR ''<'' \<notin> set x1"
    using a(1) space_no_lt[OF w(1)] by (simp add: x1_def)
  have l2: "CHR ''<'' \<notin> set x2"
    using a(3) token_no_lt[of "token_index r"] by (simp add: x2_def)
  have l3: "CHR ''<'' \<notin> set x3"
    using space_no_lt[OF w(2)] by (simp add: x3_def)
  have l4: "CHR ''<'' \<notin> set x4" by (simp add: x4_def)
  have "match_run ?tok
          (''<w:r'' @ run_attrs r @ ''>'' @ run_space r @ ''<w:t'' @ text_attrs r @ ''>''
             @ placeholder_token (token_index r) @ ''</w:t>'' @ (text_space r @ ''</w:r>'' @ v))
        = None"
    using a(2,4) w(1) assms(3) by (intro match_run_other) (simp_all add: list_all_iff)
  then have m1: "match_run ?tok (CHR ''<'' # x1 @ v1) = None"
    by (simp add: x1_def x2_def x3_def x4_def v1_def v2_def v3_def)
  have m2: "match_run ?tok (CHR ''<'' # x2 @ v2) = None"
    by (rule match_run_no_start) (simp add: x2_def expect_def)
  have m3: "match_run ?tok (CHR ''<'' # x3 @ v3) = None"
    by (rule match_run_no_start) (simp add: x3_def expect_def)
  have m4: "match_run ?tok (CHR ''<'' # x4 @ v) = None"
    by (rule match_run_no_start) (simp add: x4_def expect_def)
  have "replace_runs ?tok omml [] (CHR ''<'' # x1 @ v1)
          = CHR ''<'' # x1 @ replace_runs ?tok omml [] v1"
    by (rule skip_tag[OF assms(1) m1 l1])
  also have "replace_runs ?tok omml [] v1 = CHR ''<'' # x2 @ replace_runs ?tok omml [] v2"
    unfolding v1_def by (rule skip_tag[OF assms(1) m2 l2])
  also have "replace_runs ?tok omml [] v2 = CHR ''<'' # x3 @ replace_runs ?tok omml [] v3"
    unfolding v2_def by (rule skip_tag[OF assms(1) m3 l3])
  also have "replace_runs ?tok omml [] v3 = CHR ''<'' # x4 @ replace_runs ?tok omml [] v"
    unfolding v3_def by (rule skip_tag[OF assms(1) m4 l4])
  finally have "replace_runs ?tok omml [] (run_xml r @ v)
      = CHR ''<'' # x1 @ CHR ''<'' # x2 @ CHR ''<'' # x3 @ CHR ''<'' # x4
          @ replace_runs ?tok omml [] v"
    unfolding run .
  also have "\<dots> = run_xml r @ replace_runs ?tok omml [] v"
    by (simp add: run_xml_def x1_def x2_def x3_def x4_def)
  finally show ?thesis .
qed

text \<open>One pass of the substitution over a body.\<close>

lemma body_xml_glue: "body_xml (glue x d) = x @ body_xml d"
  by (cases d) simp_all

lemma chunk_token_free: "chunk_ok c \<Longrightarrow> \<not> sublist (placeholder_token k) c"
proof
  assume c: "chunk_ok c" and s: "sublist (placeholder_token k) c"
  from prefix_in_token[of k] s have "sublist placeholder_prefix c"
    by (rule sublist_order.order_trans)
  with c show False by (simp add: chunk_ok_def)
qed

lemma run_next_run: "run_next (run_xml r @ v)"
  by (simp add: run_next_def run_xml_def)

lemma replace_runs_body:
  assumes "literal_text omml"
  shows "body_ok d \<Longrightarrow>
     replace_runs (placeholder_token k) omml [] (body_xml d) = body_xml (subst_body k omml d)"
proof (induction d)
  case (Tail c)
  then have c: "chunk_ok c" by simp
  have n: "run_next []" by (simp add: run_next_def)
  from c have e: "c = [] \<or> last c = CHR ''>''" by (simp add: chunk_ok_def)
  from chunk_skip[OF assms n e chunk_token_free[OF c], of k]
  show ?case by simp
next
  case (Piece c r d)
  let ?tok = "placeholder_token k"
  from Piece.prems have c: "chunk_ok c" and r: "run_ok r" and d: "body_ok d" by simp_all
  from c have e: "c = [] \<or> last c = CHR ''>''" by (simp add: chunk_ok_def)
  have ih: "replace_runs ?tok omml [] (body_xml d) = body_xml (subst_body k omml d)"
    by (rule Piece.IH[OF d])
  have 1: "replace_runs ?tok omml [] (c @ run_xml r @ body_xml d)
             = c @ replace_runs ?tok omml [] (run_xml r @ body_xml d)"
    by (rule chunk_skip[OF assms run_next_run e chunk_token_free[OF c]])
  show ?case
  proof (cases "token_index r = k")
    case True
    from r have a: "CHR ''>'' \<notin> set (run_attrs r)" "CHR ''>'' \<notin> set (text_attrs r)"
      and w: "\<forall>c \<in> set (run_space r). is_space c" "\<forall>c \<in> set (text_space r). is_space c"
      by (simp_all add: run_ok_def attrs_ok_def list_all_iff)
    have "replace_runs ?tok omml [] (run_xml r @ body_xml d)
            = omml @ replace_runs ?tok omml ([] @ run_xml r) (body_xml d)"
      using replace_runs_token_run[OF a w assms, of ?tok "[]" "body_xml d"]
      by (simp add: run_xml_def True)
    also have "replace_runs ?tok omml ([] @ run_xml r) (body_xml d)
                 = replace_runs ?tok omml [] (body_xml d)"
      by (rule replace_runs_passed[OF assms])
    finally show ?thesis
      using 1 ih True by (simp add: body_xml_glue)
  next
    case False
    have "replace_runs ?tok omml [] (run_xml r @ body_xml d)
            = run_xml r @ replace_runs ?tok omml [] (body_xml d)"
      by (rule run_other[OF assms r False])
    with 1 ih False show ?thesis by simp
  qed
qed

text \<open>The shape is kept by a pass, and the runs of the substituted token are gone.\<close>

lemma prefix_free_append:
  assumes "\<not> sublist placeholder_prefix x" "\<not> sublist placeholder_prefix y"
    and "x = [] \<or> last x = CHR ''>''"
  shows "\<not> sublist placeholder_prefix (x @ y)"
proof
  assume "sublist placeholder_prefix (x @ y)"
  with assms(1,2) obtain p1 p2 where p: "placeholder_prefix = p1 @ p2" "suffix p1 x" "prefix p2 y"
    by (auto simp: sublist_append)
  show False
  proof (cases "p1 = []")
    case True
    with p have "prefix placeholder_prefix y" by simp
    then have "sublist placeholder_prefix y" by (rule prefix_imp_sublist)
    with assms(2) show False by simp
  next
    case False
    from p(2) obtain q where q: "x = q @ p1" by (auto simp: suffix_def)
    with False have "x \<noteq> []" by simp
    with assms(3) have "last x = CHR ''>''" by simp
    with q False have "last p1 = CHR ''>''" by simp
    with False have "CHR ''>'' \<in> set p1" by (metis last_in_set)
    with prefix_no_gt[unfolded p(1)] show False by simp
  qed
qed

lemma chunk_ok_append: "chunk_ok x \<Longrightarrow> chunk_ok y \<Longrightarrow> chunk_ok (x @ y)"
proof -
  assume x: "chunk_ok x" and y: "chunk_ok y"
  then have "\<not> sublist placeholder_prefix (x @ y)"
    by (intro prefix_free_append) (simp_all add: chunk_ok_def)
  moreover from x y have "x @ y = [] \<or> last (x @ y) = CHR ''>''"
    by (cases "y = []") (auto simp: chunk_ok_def)
  ultimately show ?thesis by (simp add: chunk_ok_def)
qed

lemma body_ok_glue: "chunk_ok x \<Longrightarrow> body_ok d \<Longrightarrow> body_ok (glue x d)"
  by (cases d) (simp_all add: chunk_ok_append)

lemma body_ok_subst_body:
  "fragment_ok omml \<Longrightarrow> body_ok d \<Longrightarrow> body_ok (subst_body k omml d)"
proof (induction d)
  case (Tail c)
  then show ?case by simp
next
  case (Piece c r d)
  then have "chunk_ok (c @ omml)"
    by (simp add: chunk_ok_append fragment_ok_def)
  with Piece show ?case by (simp add: body_ok_glue)
qed

lemma body_tokens_glue: "body_tokens (glue x d) = body_tokens d"
  by (cases d) simp_all

lemma body_tokens_subst_body:
  "body_tokens (subst_body k omml d) = filter (\<lambda>j. j \<noteq> k) (body_tokens d)"
  by (induction d) (simp_all add: body_tokens_glue)

text \<open>All the passes.\<close>

lemma substitute_body:
  "\<forall>omml \<in> snd ` set ks. fragment_ok omml \<Longrightarrow> body_ok d \<Longrightarrow>
     substitute (map token_entry ks) (body_xml d) = body_xml (subst_all ks d)"
proof (induction ks arbitrary: d)
  case Nil
  then show ?case by simp
next
  case (Cons e ks)
  obtain k omml where e: "e = (k, omml)" by (cases e)
  from Cons.prems(1) e have f: "fragment_ok omml" by simp
  then have dl: "literal_text omml" by (simp add: fragment_ok_def)
  from Cons.prems(1) have rest: "\<forall>omml \<in> snd ` set ks. fragment_ok omml" by simp
  have ok: "body_ok (subst_body k omml d)"
    by (rule body_ok_subst_body[OF f Cons.prems(2)])
  show ?case
    using Cons.IH[OF rest ok] replace_runs_body[OF dl Cons.prems(2), of k]
    by (simp add: e token_entry_def)
qed

lemma body_ok_subst_all:
  "\<forall>omml \<in> snd ` set ks. fragment_ok omml \<Longrightarrow> body_ok d \<Longrightarrow> body_ok (subst_all ks d)"
proof (induction ks arbitrary: d)
  case Nil
  then show ?case by simp
next
  case (Cons e ks)
  obtain k omml where e: "e = (k, omml)" by (cases e)
  from Cons.prems(1) e have f: "fragment_ok omml" by simp
  from Cons.prems(1) have rest: "\<forall>omml \<in> snd ` set ks. fragment_ok omml" by simp
  from Cons.IH[OF rest body_ok_subst_body[OF f Cons.prems(2)]]
  show ?case by (simp add: e)
qed

lemma body_tokens_subst_all:
  "body_tokens (subst_all ks d) = filter (\<lambda>j. j \<notin> fst ` set ks) (body_tokens d)"
proof (induction ks arbitrary: d)
  case Nil
  then show ?case by simp
next
  case (Cons e ks)
  obtain k omml where e: "e = (k, omml)" by (cases e)
  show ?case
    unfolding e subst_all.simps Cons.IH body_tokens_subst_body
    by (auto intro: filter_cong)
qed

lemma body_without_runs: "body_ok d \<Longrightarrow> body_tokens d = [] \<Longrightarrow> \<not> sublist placeholder_prefix (body_xml d)"
  by (cases d) (simp_all add: chunk_ok_def)

lemma registered_indexed: "registered n items = map token_entry (indexed n items)"
  by (induction n items rule: indexed.induct) (simp_all add: token_entry_def)

lemma indexed_keys:
  "map fst (indexed n items) = [n ..< n + length (filter is_math items)]"
proof (induction n items rule: indexed.induct)
  case (1 n)
  then show ?case by simp
next
  case (2 n omml isBlock items)
  define k where "k = length (filter is_math items)"
  from 2 have "map fst (indexed (Suc n) items) = [Suc n ..< Suc n + k]" by (simp add: k_def)
  then show ?case by (simp add: k_def[symmetric] upt_conv_Cons)
next
  case (3 n v items)
  then show ?case by simp
qed

lemma indexed_fragments: "snd ` set (indexed n items) = snd ` set (registered n items)"
  by (induction n items rule: indexed.induct) (simp_all)

text \<open>
  A body whose runs all carry registered tokens, substituted with fragments that hold neither
  a replacement pattern nor the prefix: the prefix is gone from the result.
\<close>

lemma substitute_clean:
  assumes "body_ok d"
    and "\<forall>j \<in> set (body_tokens d). j < length (registered 0 items)"
    and "\<forall>omml \<in> snd ` set (registered 0 items). fragment_ok omml"
  shows "\<not> sublist placeholder_prefix (substitute (registered 0 items) (body_xml d))"
proof -
  let ?ks = "indexed 0 items"
  from assms(3) have f: "\<forall>omml \<in> snd ` set ?ks. fragment_ok omml"
    by (simp only: indexed_fragments)
  have s: "substitute (registered 0 items) (body_xml d) = body_xml (subst_all ?ks d)"
    unfolding registered_indexed by (rule substitute_body[OF f assms(1)])
  have "length (registered 0 items) = length (map fst ?ks)"
    by (simp add: registered_indexed)
  also have "\<dots> = length (filter is_math items)"
    unfolding indexed_keys by simp
  finally have len: "length (registered 0 items) = length (filter is_math items)" .
  have "fst ` set ?ks = set (map fst ?ks)" by simp
  also have "\<dots> = {0 ..< length (filter is_math items)}"
    unfolding indexed_keys by simp
  finally have keys: "fst ` set ?ks = {0 ..< length (filter is_math items)}" .
  have "body_tokens (subst_all ?ks d) = []"
    unfolding body_tokens_subst_all keys using assms(2) len
    by (simp add: filter_empty_conv)
  with body_ok_subst_all[OF f assms(1)]
  have "\<not> sublist placeholder_prefix (body_xml (subst_all ?ks d))"
    by (rule body_without_runs)
  then show ?thesis unfolding s .
qed

section \<open>The claims\<close>

text \<open>
  C1. For every string, the sources of the spans of the segmentation pass (the text pieces and
  the matched text \<open>match[0]\<close> of every formula), concatenated in order, are the string
  itself. The preview, the copy and the items of the export are each built span by span from
  these spans. The round trip holds also where conversions fail: with a renderer that throws
  on every formula \<open>handleCopy\<close> writes the input back unchanged, and \<open>generateDocx\<close> then
  holds exactly the non-empty span sources as text items, whether the renderer or the bridge
  is what fails; their concatenation is again the scanned text.
\<close>

theorem C1_segment_roundtrip:
  "concat (map span_source (segment s)) = s
   \<and> parseForDisplay render s = concat (map (display_piece render) (segment s))
   \<and> handleCopy render s = concat (map (copy_piece render) (segment s))
   \<and> parse_items render mathmlToOmml s
       = concat (map (span_items render mathmlToOmml) (segment s))
   \<and> handleCopy (\<lambda>latex isBlock. None) s = s
   \<and> parse_items (\<lambda>latex isBlock. None) mathmlToOmml s
       = map TextItem (filter (\<lambda>t. t \<noteq> []) (map span_source (segment s)))
   \<and> parse_items render (\<lambda>mathml. None) s
       = map TextItem (filter (\<lambda>t. t \<noteq> []) (map span_source (segment s)))
   \<and> concat (filter (\<lambda>t. t \<noteq> []) (map span_source (segment s))) = s"
proof -
  have ne: "whole m \<noteq> []" if "Formula m \<in> set (segment s)" for m
    using segment_Formula_slice(2)[OF that] by auto
  have 1: "concat (map span_source (segment s)) = s"
    by (rule segment_source)
  have 2: "handleCopy (\<lambda>latex isBlock. None) s = s"
    by (simp only: handleCopy_spans copy_pieces_fail segment_source)
  have 3: "parse_items (\<lambda>latex isBlock. None) mathmlToOmml s
       = map TextItem (filter (\<lambda>t. t \<noteq> []) (map span_source (segment s)))"
    unfolding parse_items_spans
    by (rule span_items_all_fail)
       (simp_all add: convert_item_render_fails latexToMathML_of_never ne)
  have 4: "parse_items render (\<lambda>mathml. None) s
       = map TextItem (filter (\<lambda>t. t \<noteq> []) (map span_source (segment s)))"
    unfolding parse_items_spans
    by (rule span_items_all_fail) (simp_all add: convert_item_never_bridge ne)
  have 5: "concat (filter (\<lambda>t. t \<noteq> []) (map span_source (segment s))) = s"
    by (simp only: concat_filter_nonempty segment_source)
  note 6 = parseForDisplay_spans[of render s] handleCopy_spans[of render s]
    parse_items_spans[of render mathmlToOmml s]
  from 1 2 3 4 5 6 show ?thesis by (intro conjI)
qed

text \<open>
  C6. For the input \<open>$$a$$ and $b$\<close> the scan finds two matches: the block form with body
  \<open>a\<close> at index 0 and the inline form with body \<open>b\<close> at index 10. The export holds three
  items in order: the conversion of \<open>a\<close> requested in display mode, the text \<open>and\<close> with its
  two spaces, and the conversion of \<open>b\<close> requested inline. The doubled marker is one block
  formula.
\<close>

theorem C6_block_before_inline:
  "exec_all ''$$a$$ and $b$'' 0 =
     [\<lparr>index = 0, whole = ''$$a$$'', grp1 = Some ''a'', grp2 = None\<rparr>,
      \<lparr>index = 10, whole = ''$b$'', grp1 = None, grp2 = Some ''b''\<rparr>]
   \<and> parse_items render mathmlToOmml ''$$a$$ and $b$'' =
     [convert_item render mathmlToOmml
        \<lparr>index = 0, whole = ''$$a$$'', grp1 = Some ''a'', grp2 = None\<rparr>,
      TextItem '' and '',
      convert_item render mathmlToOmml
        \<lparr>index = 10, whole = ''$b$'', grp1 = None, grp2 = Some ''b''\<rparr>]
   \<and> latexToMathML_of render \<lparr>index = 0, whole = ''$$a$$'', grp1 = Some ''a'', grp2 = None\<rparr>
       = render ''a'' True
   \<and> latexToMathML_of render \<lparr>index = 10, whole = ''$b$'', grp1 = None, grp2 = Some ''b''\<rparr>
       = render ''b'' False
   \<and> parse_items (\<lambda>latex isBlock. Some latex) Some ''$$a$$ and $b$'' =
     [MathItem ''a'' True, TextItem '' and '', MathItem ''b'' False]"
proof -
  have e: "exec_all ''$$a$$ and $b$'' 0 =
     [\<lparr>index = 0, whole = ''$$a$$'', grp1 = Some ''a'', grp2 = None\<rparr>,
      \<lparr>index = 10, whole = ''$b$'', grp1 = None, grp2 = Some ''b''\<rparr>]"
    by code_simp
  have p: "parse_items r b ''$$a$$ and $b$'' =
     [convert_item r b \<lparr>index = 0, whole = ''$$a$$'', grp1 = Some ''a'', grp2 = None\<rparr>,
      TextItem '' and '',
      convert_item r b \<lparr>index = 10, whole = ''$b$'', grp1 = None, grp2 = Some ''b''\<rparr>]"
    for r b
    by (simp add: parse_items_def e slice_def slice_from_def)
  have l1: "latexToMathML_of r \<lparr>index = 0, whole = ''$$a$$'', grp1 = Some ''a'', grp2 = None\<rparr>
       = r ''a'' True" for r
    by (simp add: latexToMathML_of_def js_or_def truthy_def)
  have l2: "latexToMathML_of r \<lparr>index = 10, whole = ''$b$'', grp1 = None, grp2 = Some ''b''\<rparr>
       = r ''b'' False" for r
    by (simp add: latexToMathML_of_def js_or_def truthy_def)
  have c: "parse_items (\<lambda>latex isBlock. Some latex) Some ''$$a$$ and $b$'' =
     [MathItem ''a'' True, TextItem '' and '', MathItem ''b'' False]"
    by (simp add: p convert_item_def l1 l2 truthy_def)
  from e p l1 l2 c show ?thesis by simp
qed

text \<open>
  C7. For the input \<open>$a$ and $b\<close> the scan finds one match, the inline form with body \<open>a\<close>.
  The export holds two items: the conversion of \<open>a\<close> requested inline and the text
  \<open> and $b\<close>, in which the unmatched marker stays as it is.
\<close>

theorem C7_unmatched_marker_is_text:
  "exec_all ''$a$ and $b'' 0 =
     [\<lparr>index = 0, whole = ''$a$'', grp1 = None, grp2 = Some ''a''\<rparr>]
   \<and> parse_items render mathmlToOmml ''$a$ and $b'' =
     [convert_item render mathmlToOmml
        \<lparr>index = 0, whole = ''$a$'', grp1 = None, grp2 = Some ''a''\<rparr>,
      TextItem '' and $b'']
   \<and> latexToMathML_of render \<lparr>index = 0, whole = ''$a$'', grp1 = None, grp2 = Some ''a''\<rparr>
       = render ''a'' False
   \<and> parse_items (\<lambda>latex isBlock. Some latex) Some ''$a$ and $b'' =
     [MathItem ''a'' False, TextItem '' and $b'']"
proof -
  have e: "exec_all ''$a$ and $b'' 0 =
     [\<lparr>index = 0, whole = ''$a$'', grp1 = None, grp2 = Some ''a''\<rparr>]"
    by code_simp
  have p: "parse_items r b ''$a$ and $b'' =
     [convert_item r b \<lparr>index = 0, whole = ''$a$'', grp1 = None, grp2 = Some ''a''\<rparr>,
      TextItem '' and $b'']"
    for r b
    by (simp add: parse_items_def e slice_def slice_from_def)
  have l1: "latexToMathML_of r \<lparr>index = 0, whole = ''$a$'', grp1 = None, grp2 = Some ''a''\<rparr>
       = r ''a'' False" for r
    by (simp add: latexToMathML_of_def js_or_def truthy_def)
  have c: "parse_items (\<lambda>latex isBlock. Some latex) Some ''$a$ and $b'' =
     [MathItem ''a'' False, TextItem '' and $b'']"
    by (simp add: p convert_item_def l1 truthy_def)
  from e p l1 c show ?thesis by simp
qed

text \<open>
  C10. When the first \<open>exec\<close> on the input finds no match, the text that \<open>handleCopy\<close>
  writes to the clipboard is the input unchanged, whatever the renderer. The preview of the
  same input is its escaped form, \<open>escapeAndFormat input\<close>.
\<close>

theorem C10_copy_without_math_is_identity:
  assumes "regex_exec input 0 = None"
  shows "handleCopy render input = input
         \<and> parseForDisplay render input = escapeAndFormat input"
  using assms
  by (simp add: handleCopy_def parseForDisplay_def exec_all_None slice_from_def)

theorem C10_copy_without_math_witness:
  "regex_exec ''a < b & c'' 0 = None
   \<and> handleCopy (\<lambda>latex isBlock. None) ''a < b & c'' = ''a < b & c''
   \<and> parseForDisplay (\<lambda>latex isBlock. None) ''a < b & c'' = ''a &lt; b &amp; c''"
proof -
  have h: "regex_exec ''a < b & c'' 0 = None" by code_simp
  have e: "escapeAndFormat ''a < b & c'' = ''a &lt; b &amp; c''" by code_simp
  from C10_copy_without_math_is_identity[OF h, of "\<lambda>latex isBlock. None"] h e
  show ?thesis by simp
qed

text \<open>
  C9. For every string, the unescaping of \<open>handleContextMenu\<close> applied to the value written
  into the \<open>data-latex\<close> attribute gives the string back.
\<close>

theorem C9_unescape_after_escape: "contextMenuLatex (escapedLatex s) = s"
  by (simp only: contextMenuLatex_def escapedLatex_chars unquote_chars unlt_chars ungt_chars
        unamp_chars)

text \<open>
  C5. For the input \<open>pre\<close>, two line feeds, \<open>$$x$$\<close>, two line feeds, \<open>post\<close>, when both
  conversions of \<open>x\<close> in display mode succeed, the export builds exactly three paragraphs:
  a left-aligned one with the single run \<open>pre\<close>, a centred one with the single run of the
  first placeholder, and a left-aligned one with the single run \<open>post\<close>. The placeholder map
  holds that one placeholder with the converted fragment.
\<close>

theorem C5_block_math_isolated:
  assumes "render ''x'' True = Some mathml" and "mathmlToOmml mathml = Some omml"
  shows "paragraphs (assemble render mathmlToOmml (''pre'' @ [LF, LF] @ ''$$x$$'' @ [LF, LF] @ ''post''))
           = [\<lparr>children = [TextRun ''pre''], alignment = LEFT\<rparr>,
              \<lparr>children = [TextRun ''__MATH_PLACEHOLDER_0__''], alignment = CENTER\<rparr>,
              \<lparr>children = [TextRun ''post''], alignment = LEFT\<rparr>]
         \<and> mathPlaceholders (assemble render mathmlToOmml
                (''pre'' @ [LF, LF] @ ''$$x$$'' @ [LF, LF] @ ''post''))
           = [(''__MATH_PLACEHOLDER_0__'', omml)]"
proof -
  let ?input = "''pre'' @ [LF, LF] @ ''$$x$$'' @ [LF, LF] @ ''post''"
  let ?m = "\<lparr>index = 5, whole = ''$$x$$'', grp1 = Some ''x'', grp2 = None\<rparr>"
  have n: "normalizeLineEndings ?input = ?input" by code_simp
  have e: "exec_all ?input 0 = [?m]" by code_simp
  have s1: "slice ?input 0 5 = ''pre'' @ [LF, LF]" by code_simp
  have s2: "slice_from ?input 10 = [LF, LF] @ ''post''" by code_simp
  have c: "convert_item render mathmlToOmml ?m = MathItem omml True"
    using assms by (simp add: convert_item_def latexToMathML_of_def js_or_def truthy_def)
  have p: "parse_items render mathmlToOmml ?input
             = [TextItem (''pre'' @ [LF, LF]), MathItem omml True, TextItem ([LF, LF] @ ''post'')]"
    unfolding parse_items_def e by (simp add: s1 s2 c del: append.simps)
  have b: "build_paragraphs
             [TextItem (''pre'' @ [LF, LF]), MathItem omml True, TextItem ([LF, LF] @ ''post'')]
           = \<lparr>paragraphs =
                [\<lparr>children = [TextRun ''pre''], alignment = LEFT\<rparr>,
                 \<lparr>children = [TextRun ''__MATH_PLACEHOLDER_0__''], alignment = CENTER\<rparr>,
                 \<lparr>children = [TextRun ''post''], alignment = LEFT\<rparr>],
              mathPlaceholders = [(''__MATH_PLACEHOLDER_0__'', omml)],
              placeholderIndex = 1, currentParagraphItems = []\<rparr>"
    by code_simp
  show ?thesis unfolding assemble_def n p b by simp
qed

theorem C5_block_math_isolated_witness:
  "(\<lambda>latex isBlock. Some latex) ''x'' True = Some ''x'' \<and> Some ''x'' = Some ''x''
   \<and> paragraphs (assemble (\<lambda>latex isBlock. Some latex) Some
        (''pre'' @ [LF, LF] @ ''$$x$$'' @ [LF, LF] @ ''post''))
           = [\<lparr>children = [TextRun ''pre''], alignment = LEFT\<rparr>,
              \<lparr>children = [TextRun ''__MATH_PLACEHOLDER_0__''], alignment = CENTER\<rparr>,
              \<lparr>children = [TextRun ''post''], alignment = LEFT\<rparr>]
   \<and> mathPlaceholders (assemble (\<lambda>latex isBlock. Some latex) Some
        (''pre'' @ [LF, LF] @ ''$$x$$'' @ [LF, LF] @ ''post''))
           = [(''__MATH_PLACEHOLDER_0__'', ''x'')]"
  using C5_block_math_isolated[of "\<lambda>latex isBlock. Some latex" "''x''" Some "''x''"]
  by simp

text \<open>
  C4. Take a formula span \<open>Formula m\<close> of the scanned text, with the spans before and behind
  it, whose conversion fails: the renderer throws, or it returns markup on which the bridge
  throws. Then the item list of the export is the items of the spans before it, then the text
  item holding \<open>match[0]\<close>, then the items of the spans behind it. The spans before it cover
  the text up to \<open>match.index\<close>, and \<open>match[0]\<close> is the piece of the text that starts
  there: the formula body between its delimiters. The failure does not leave the export:
  with a renderer that throws on every formula, the export still returns the blob built from
  the paragraphs.
\<close>

theorem C4_failed_conversion_is_text:
  assumes "segment text = before @ Formula m # after"
    and "latexToMathML_of render m = None
         \<or> (\<exists>mathml. latexToMathML_of render m = Some mathml \<and> mathmlToOmml mathml = None)"
  shows "parse_items render mathmlToOmml text
           = concat (map (span_items render mathmlToOmml) before)
             @ TextItem (whole m) # concat (map (span_items render mathmlToOmml) after)
         \<and> concat (map span_source before) = take (index m) text
         \<and> whole m = slice text (index m) (index m + length (whole m))
         \<and> (\<exists>b. js_or (grp1 m) (grp2 m) = Some b
                \<and> whole m = (if truthy (grp1 m) then ''$$'' @ b @ ''$$'' else ''$'' @ b @ ''$''))
         \<and> generateDocx (\<lambda>latex isBlock. None) mathmlToOmml ext input
             = (toBlob ext (paragraphs (assemble (\<lambda>latex isBlock. None) mathmlToOmml input)),
                [ToBlob])"
proof -
  from assms(1) have mem: "Formula m \<in> set (segment text)" by simp
  from assms(2) have c: "convert_item render mathmlToOmml m = TextItem (whole m)"
    by (auto simp: convert_item_render_fails convert_item_bridge_fails)
  have 1: "parse_items render mathmlToOmml text
           = concat (map (span_items render mathmlToOmml) before)
             @ TextItem (whole m) # concat (map (span_items render mathmlToOmml) after)"
    by (simp add: parse_items_spans assms(1) c)
  have 2: "concat (map span_source before) = take (index m) text"
    by (rule segment_position[OF assms(1)])
  have 3: "whole m = slice text (index m) (index m + length (whole m))"
    by (rule segment_Formula_slice(1)[OF mem])
  from exec_all_groups[OF mem]
  have 4: "\<exists>b. js_or (grp1 m) (grp2 m) = Some b
                \<and> whole m = (if truthy (grp1 m) then ''$$'' @ b @ ''$$'' else ''$'' @ b @ ''$'')"
    by blast
  have "parse_items (\<lambda>latex isBlock. None) mathmlToOmml (normalizeLineEndings input)
          = map TextItem (filter (\<lambda>t. t \<noteq> [])
              (map span_source (segment (normalizeLineEndings input))))"
  proof -
    have ne: "whole m \<noteq> []" if "Formula m \<in> set (segment (normalizeLineEndings input))" for m
      using segment_Formula_slice(2)[OF that] by auto
    show ?thesis
      unfolding parse_items_spans
      by (rule span_items_all_fail)
         (simp_all add: convert_item_render_fails latexToMathML_of_never ne)
  qed
  then have "\<forall>item \<in> set (parse_items (\<lambda>latex isBlock. None) mathmlToOmml (normalizeLineEndings input)).
               \<not> is_math item"
    by auto
  from generateDocx_no_placeholders[OF assemble_all_text[OF this]]
  have 5: "generateDocx (\<lambda>latex isBlock. None) mathmlToOmml ext input
             = (toBlob ext (paragraphs (assemble (\<lambda>latex isBlock. None) mathmlToOmml input)),
                [ToBlob])" .
  from 1 2 3 4 5 show ?thesis by blast
qed

theorem C4_failed_conversion_witness:
  "segment ''a$x$b''
     = [Text ''a''] @ Formula \<lparr>index = 1, whole = ''$x$'', grp1 = None, grp2 = Some ''x''\<rparr>
         # [Text ''b'']
   \<and> latexToMathML_of (\<lambda>latex isBlock. Some latex)
        \<lparr>index = 1, whole = ''$x$'', grp1 = None, grp2 = Some ''x''\<rparr> = Some ''x''
   \<and> (\<lambda>mathml. None :: string option) ''x'' = None
   \<and> parse_items (\<lambda>latex isBlock. Some latex) (\<lambda>mathml. None) ''a$x$b''
       = [TextItem ''a'', TextItem ''$x$'', TextItem ''b'']"
proof -
  let ?m = "\<lparr>index = 1, whole = ''$x$'', grp1 = None, grp2 = Some ''x''\<rparr>"
  have s: "segment ''a$x$b'' = [Text ''a''] @ Formula ?m # [Text ''b'']"
    by code_simp
  have l: "latexToMathML_of (\<lambda>latex isBlock. Some latex) ?m = Some ''x''"
    by (simp add: latexToMathML_of_def js_or_def truthy_def)
  have f: "latexToMathML_of (\<lambda>latex isBlock. Some latex) ?m = None
         \<or> (\<exists>mathml. latexToMathML_of (\<lambda>latex isBlock. Some latex) ?m = Some mathml
               \<and> (\<lambda>mathml. None :: string option) mathml = None)"
    using l by simp
  from C4_failed_conversion_is_text[OF s f, THEN conjunct1] s l show ?thesis by simp
qed

text \<open>
  C8. When the scan of the input finds no formula, the placeholder map is empty after
  assembly and the export returns the blob of the document builder as it is; the only
  external call is the one that serialises the paragraphs. The archive is not loaded, read,
  written or serialised again, whatever the converters and the archive library would do.
\<close>

theorem C8_no_math_returns_builder_blob:
  assumes "regex_exec input 0 = None"
  shows "mathPlaceholders (assemble render mathmlToOmml input) = []
         \<and> generateDocx render mathmlToOmml ext input
             = (toBlob ext (paragraphs (assemble render mathmlToOmml input)), [ToBlob])"
proof -
  let ?text = "normalizeLineEndings input"
  from normalizeLineEndings_no_formula[OF assms] have "exec_all ?text 0 = []"
    by (rule exec_all_None)
  then have "parse_items render mathmlToOmml ?text
               = (if slice_from ?text 0 \<noteq> [] then [TextItem (slice_from ?text 0)] else [])"
    by (simp add: parse_items_def Let_def)
  then have "\<forall>item \<in> set (parse_items render mathmlToOmml ?text). \<not> is_math item"
    by simp
  from assemble_all_text[OF this]
  have e: "mathPlaceholders (assemble render mathmlToOmml input) = []" .
  from e generateDocx_no_placeholders[OF e] show ?thesis by simp
qed

theorem C8_no_math_witness:
  "regex_exec ''plain < text'' 0 = None
   \<and> generateDocx (\<lambda>latex isBlock. Some latex) Some
        \<lparr>toBlob = (\<lambda>ps. ps), loadAsync = (\<lambda>blob. ''zip''),
         readDocumentXml = (\<lambda>zip. Some zip), writeDocumentXml = (\<lambda>zip xml. xml),
         generateAsync = (\<lambda>zip. [])\<rparr>
        ''plain < text''
       = ([\<lparr>children = [TextRun ''plain < text''], alignment = LEFT\<rparr>], [ToBlob])"
proof -
  have h: "regex_exec ''plain < text'' 0 = None" by code_simp
  have p: "paragraphs (assemble (\<lambda>latex isBlock. Some latex) Some ''plain < text'')
             = [\<lparr>children = [TextRun ''plain < text''], alignment = LEFT\<rparr>]"
    by code_simp
  from C8_no_math_returns_builder_blob[OF h, of "\<lambda>latex isBlock. Some latex" Some
      "\<lparr>toBlob = (\<lambda>ps. ps), loadAsync = (\<lambda>blob. ''zip''),
         readDocumentXml = (\<lambda>zip. Some zip), writeDocumentXml = (\<lambda>zip xml. xml),
         generateAsync = (\<lambda>zip. [])\<rparr>"] h p
  show ?thesis by simp
qed

text \<open>
  C2. The claim that no registered placeholder token occurs in the plain text of the input
  does not hold: the program has no guard against it. For the input
  \<open>see __MATH_PLACEHOLDER_0__ and $x$\<close> the export registers the token
  \<open>__MATH_PLACEHOLDER_0__\<close> for the formula, and the text item in front of the formula
  holds that token.
\<close>

theorem C2_token_in_user_text:
  "parse_items (\<lambda>latex isBlock. Some latex) Some
       (normalizeLineEndings ''see __MATH_PLACEHOLDER_0__ and $x$'')
     = [TextItem ''see __MATH_PLACEHOLDER_0__ and '', MathItem ''x'' False]
   \<and> mathPlaceholders (assemble (\<lambda>latex isBlock. Some latex) Some
         ''see __MATH_PLACEHOLDER_0__ and $x$'')
     = [(''__MATH_PLACEHOLDER_0__'', ''x'')]
   \<and> sublist ''__MATH_PLACEHOLDER_0__'' ''see __MATH_PLACEHOLDER_0__ and ''
   \<and> sublist ''__MATH_PLACEHOLDER_0__'' ''see __MATH_PLACEHOLDER_0__ and $x$''"
proof -
  have 1: "parse_items (\<lambda>latex isBlock. Some latex) Some
       (normalizeLineEndings ''see __MATH_PLACEHOLDER_0__ and $x$'')
     = [TextItem ''see __MATH_PLACEHOLDER_0__ and '', MathItem ''x'' False]"
    by code_simp
  have 2: "mathPlaceholders (assemble (\<lambda>latex isBlock. Some latex) Some
         ''see __MATH_PLACEHOLDER_0__ and $x$'')
     = [(''__MATH_PLACEHOLDER_0__'', ''x'')]"
    by code_simp
  have 3: "sublist ''__MATH_PLACEHOLDER_0__'' (''see '' @ ''__MATH_PLACEHOLDER_0__'' @ '' and '')"
    by (rule sublist_appendI)
  have 4: "sublist ''__MATH_PLACEHOLDER_0__'' (''see '' @ ''__MATH_PLACEHOLDER_0__'' @ '' and $x$'')"
    by (rule sublist_appendI)
  from 1 2 3 4 show ?thesis by simp
qed

text \<open>
  C2, amended. Every registered token is \<open>__MATH_PLACEHOLDER_\<close>, the decimal text of a
  number and \<open>__\<close>. When the input does not hold the prefix \<open>__MATH_PLACEHOLDER_\<close>
  anywhere, no registered token occurs in the input or in any text item of the export.
\<close>

theorem C2_tokens_absent_without_prefix:
  assumes "\<not> sublist placeholder_prefix input"
    and "tok \<in> fst ` set (mathPlaceholders (assemble render mathmlToOmml input))"
  shows "(\<exists>k. tok = placeholder_token k)
         \<and> \<not> sublist tok input
         \<and> (\<forall>v. TextItem v \<in> set (parse_items render mathmlToOmml (normalizeLineEndings input))
                \<longrightarrow> \<not> sublist tok v)"
proof -
  let ?items = "parse_items render mathmlToOmml (normalizeLineEndings input)"
  from assms(2) have "tok \<in> set (map fst (registered 0 ?items))"
    by (simp add: assemble_def build_paragraphs_placeholders)
  then obtain k where k: "tok = placeholder_token k"
    unfolding registered_keys by auto
  have p: "sublist placeholder_prefix tok"
    unfolding k by (rule prefix_in_token)
  have 1: "\<not> sublist tok input"
  proof
    assume "sublist tok input"
    with p have "sublist placeholder_prefix input" by (rule sublist_order.order_trans)
    with assms(1) show False by simp
  qed
  have 2: "\<not> sublist tok v" if "TextItem v \<in> set ?items" for v
  proof
    assume "sublist tok v"
    with p have "sublist placeholder_prefix v" by (rule sublist_order.order_trans)
    moreover from parse_items_prefix_free[OF assms(1), of render mathmlToOmml] that
    have "\<not> sublist placeholder_prefix v" by (simp add: prefix_free_def)
    ultimately show False by simp
  qed
  from k 1 2 show ?thesis by blast
qed

theorem C2_tokens_absent_witness:
  "\<not> sublist placeholder_prefix ''a $x$ b''
   \<and> ''__MATH_PLACEHOLDER_0__''
        \<in> fst ` set (mathPlaceholders (assemble (\<lambda>latex isBlock. Some latex) Some ''a $x$ b''))
   \<and> parse_items (\<lambda>latex isBlock. Some latex) Some (normalizeLineEndings ''a $x$ b'')
        = [TextItem ''a '', MathItem ''x'' False, TextItem '' b'']
   \<and> \<not> sublist ''__MATH_PLACEHOLDER_0__'' ''a $x$ b''
   \<and> \<not> sublist ''__MATH_PLACEHOLDER_0__'' ''a ''
   \<and> \<not> sublist ''__MATH_PLACEHOLDER_0__'' '' b''"
proof -
  have h: "\<not> sublist placeholder_prefix ''a $x$ b''" by code_simp
  have m: "mathPlaceholders (assemble (\<lambda>latex isBlock. Some latex) Some ''a $x$ b'')
             = [(''__MATH_PLACEHOLDER_0__'', ''x'')]"
    by code_simp
  have t: "''__MATH_PLACEHOLDER_0__''
        \<in> fst ` set (mathPlaceholders (assemble (\<lambda>latex isBlock. Some latex) Some ''a $x$ b''))"
    unfolding m by simp
  have i: "parse_items (\<lambda>latex isBlock. Some latex) Some (normalizeLineEndings ''a $x$ b'')
        = [TextItem ''a '', MathItem ''x'' False, TextItem '' b'']"
    by code_simp
  from C2_tokens_absent_without_prefix[OF h t] h t i show ?thesis by simp
qed

text \<open>
  C3. Two parts of the claim do not hold. A token can occur in more than one run of the
  paragraphs: for the input \<open>__MATH_PLACEHOLDER_0__$x$\<close> the single paragraph holds two runs
  whose text is the registered token, the text of the user and the placeholder. And a
  registered token can occur in the body part that the export writes back. With the plain
  serialisation of the examples, the input \<open>see __MATH_PLACEHOLDER_0__ and $x$\<close> keeps the
  token in the run of the user's text, which the expression of line 217 does not match; and
  when the fragment of the formula \<open>$x$\<close> is \<^verbatim>\<open><m:t>$&</m:t>\<close>, the replacement of line
  220 takes \<^verbatim>\<open>$&\<close> for the matched text and puts the run element with its token back
  inside the fragment.
\<close>

theorem C3_token_twice_and_token_left:
  "mathPlaceholders (assemble (\<lambda>latex isBlock. Some latex) Some ''__MATH_PLACEHOLDER_0__$x$'')
     = [(''__MATH_PLACEHOLDER_0__'', ''x'')]
   \<and> paragraphs (assemble (\<lambda>latex isBlock. Some latex) Some ''__MATH_PLACEHOLDER_0__$x$'')
     = [\<lparr>children = [TextRun ''__MATH_PLACEHOLDER_0__'', TextRun ''__MATH_PLACEHOLDER_0__''],
         alignment = LEFT\<rparr>]
   \<and> mathPlaceholders (assemble (\<lambda>latex isBlock. Some latex)
         (\<lambda>mathml. Some (''<m:r>'' @ mathml @ ''</m:r>'')) ''see __MATH_PLACEHOLDER_0__ and $x$'')
     = [(''__MATH_PLACEHOLDER_0__'', ''<m:r>x</m:r>'')]
   \<and> generateDocx (\<lambda>latex isBlock. Some latex) (\<lambda>mathml. Some (''<m:r>'' @ mathml @ ''</m:r>''))
         example_externals ''see __MATH_PLACEHOLDER_0__ and $x$''
     = (''<w:p><w:r><w:t>see __MATH_PLACEHOLDER_0__ and </w:t></w:r><m:r>x</m:r></w:p>'',
        [ToBlob, LoadAsync, ReadDocumentXml, WriteDocumentXml, GenerateAsync])
   \<and> sublist ''__MATH_PLACEHOLDER_0__''
         ''<w:p><w:r><w:t>see __MATH_PLACEHOLDER_0__ and </w:t></w:r><m:r>x</m:r></w:p>''
   \<and> mathPlaceholders (assemble (\<lambda>latex isBlock. Some latex)
         (\<lambda>mathml. Some ''<m:t>$&</m:t>'') ''$x$'')
     = [(''__MATH_PLACEHOLDER_0__'', ''<m:t>$&</m:t>'')]
   \<and> generateDocx (\<lambda>latex isBlock. Some latex) (\<lambda>mathml. Some ''<m:t>$&</m:t>'')
         example_externals ''$x$''
     = (''<w:p><m:t><w:r><w:t>__MATH_PLACEHOLDER_0__</w:t></w:r></m:t></w:p>'',
        [ToBlob, LoadAsync, ReadDocumentXml, WriteDocumentXml, GenerateAsync])
   \<and> sublist ''__MATH_PLACEHOLDER_0__''
         ''<w:p><m:t><w:r><w:t>__MATH_PLACEHOLDER_0__</w:t></w:r></m:t></w:p>''"
  by code_simp

text \<open>
  C3, amended. When the assembly registers \<open>N\<close> math items, the placeholder map holds
  \<open>N\<close> entries whose keys are the tokens numbered \<open>0\<close> to \<open>N - 1\<close> in order; they are
  pairwise distinct. When the input does not hold the prefix \<open>__MATH_PLACEHOLDER_\<close>
  anywhere, each token occurs in exactly one run of the paragraphs. When the map is not
  empty and the archive yields a non-empty body part, the export makes the five external
  calls and writes back that body part after the substitution of every entry of the map.
  When the body part consists of stretches of markup that do not hold the prefix and end with
  the end of a tag, and of run elements that hold exactly a registered token each, and when
  every fragment of the map does not hold the prefix, has no pattern that the replacement
  expands and is empty or ends with the end of a tag, then the substituted body part does
  not hold the prefix; so no registered token occurs in it.
\<close>

theorem C3_tokens_distinct_one_run_substituted:
  "length (mathPlaceholders (assemble render mathmlToOmml input))
     = length (filter is_math (parse_items render mathmlToOmml (normalizeLineEndings input)))
   \<and> map fst (mathPlaceholders (assemble render mathmlToOmml input))
     = map placeholder_token
         [0 ..< length (filter is_math (parse_items render mathmlToOmml (normalizeLineEndings input)))]
   \<and> distinct (map fst (mathPlaceholders (assemble render mathmlToOmml input)))
   \<and> (\<not> sublist placeholder_prefix input \<longrightarrow>
        (\<forall>tok \<in> fst ` set (mathPlaceholders (assemble render mathmlToOmml input)).
           length (filter (\<lambda>r. sublist tok (run_text r))
                     (concat (map children (paragraphs (assemble render mathmlToOmml input)))))
             = 1))
   \<and> (mathPlaceholders (assemble render mathmlToOmml input) \<noteq> []
        \<and> readDocumentXml ext
             (loadAsync ext (toBlob ext (paragraphs (assemble render mathmlToOmml input))))
            = Some documentXml
        \<and> documentXml \<noteq> [] \<longrightarrow>
        generateDocx render mathmlToOmml ext input
          = (generateAsync ext
               (writeDocumentXml ext
                  (loadAsync ext (toBlob ext (paragraphs (assemble render mathmlToOmml input))))
                  (substitute (mathPlaceholders (assemble render mathmlToOmml input)) documentXml)),
             [ToBlob, LoadAsync, ReadDocumentXml, WriteDocumentXml, GenerateAsync]))
   \<and> (body_ok d
        \<and> (\<forall>j \<in> set (body_tokens d).
              j < length (mathPlaceholders (assemble render mathmlToOmml input)))
        \<and> (\<forall>omml \<in> snd ` set (mathPlaceholders (assemble render mathmlToOmml input)).
              fragment_ok omml) \<longrightarrow>
        \<not> sublist placeholder_prefix
            (substitute (mathPlaceholders (assemble render mathmlToOmml input)) (body_xml d))
        \<and> (\<forall>tok \<in> fst ` set (mathPlaceholders (assemble render mathmlToOmml input)).
              \<not> sublist tok
                  (substitute (mathPlaceholders (assemble render mathmlToOmml input))
                     (body_xml d))))"
proof -
  let ?items = "parse_items render mathmlToOmml (normalizeLineEndings input)"
  let ?st = "assemble render mathmlToOmml input"
  let ?N = "length (filter is_math ?items)"
  have keys: "map fst (mathPlaceholders ?st) = map placeholder_token [0 ..< ?N]"
    by (simp add: assemble_def build_paragraphs_placeholders registered_keys)
  then have "length (map fst (mathPlaceholders ?st)) = length (map placeholder_token [0 ..< ?N])"
    by (rule arg_cong)
  then have len: "length (mathPlaceholders ?st) = ?N" by simp
  have "inj_on placeholder_token (set [0 ..< ?N])"
    by (rule inj_onI) (rule placeholder_token_inj)
  then have dist: "distinct (map fst (mathPlaceholders ?st))"
    unfolding keys by (simp add: distinct_map)
  have once: "length (filter (\<lambda>r. sublist tok (run_text r))
                     (concat (map children (paragraphs ?st)))) = 1"
    if h: "\<not> sublist placeholder_prefix input" and t: "tok \<in> fst ` set (mathPlaceholders ?st)"
    for tok
  proof -
    from t have "tok \<in> set (map fst (mathPlaceholders ?st))" by simp
    then obtain k where k: "tok = placeholder_token k" "k < ?N"
      unfolding keys by auto
    have runs: "concat (map children (paragraphs ?st)) = runs_from 0 ?items"
      by (simp add: assemble_def build_paragraphs_runs)
    from runs_from_count[OF parse_items_prefix_free[OF h, of render mathmlToOmml], of k 0] k(2)
    show ?thesis unfolding runs k(1) by simp
  qed
  have export: "generateDocx render mathmlToOmml ext input
          = (generateAsync ext
               (writeDocumentXml ext (loadAsync ext (toBlob ext (paragraphs ?st)))
                  (substitute (mathPlaceholders ?st) documentXml)),
             [ToBlob, LoadAsync, ReadDocumentXml, WriteDocumentXml, GenerateAsync])"
    if "mathPlaceholders ?st \<noteq> []"
      and "readDocumentXml ext (loadAsync ext (toBlob ext (paragraphs ?st))) = Some documentXml"
      and "documentXml \<noteq> []"
    using that by (simp add: generateDocx_def Let_def)
  have mp: "mathPlaceholders ?st = registered 0 ?items"
    by (simp add: assemble_def build_paragraphs_placeholders)
  have clean: "\<not> sublist placeholder_prefix (substitute (mathPlaceholders ?st) (body_xml d))"
    if "body_ok d" and "\<forall>j \<in> set (body_tokens d). j < length (mathPlaceholders ?st)"
      and "\<forall>omml \<in> snd ` set (mathPlaceholders ?st). fragment_ok omml"
    using that unfolding mp by (rule substitute_clean)
  have none: "\<not> sublist tok (substitute (mathPlaceholders ?st) (body_xml d))"
    if c: "\<not> sublist placeholder_prefix (substitute (mathPlaceholders ?st) (body_xml d))"
      and t: "tok \<in> fst ` set (mathPlaceholders ?st)"
    for tok
  proof
    assume s: "sublist tok (substitute (mathPlaceholders ?st) (body_xml d))"
    from t have "tok \<in> set (map fst (mathPlaceholders ?st))" by simp
    then obtain k where k: "tok = placeholder_token k"
      unfolding keys by auto
    from prefix_in_token[of k] s[unfolded k]
    have "sublist placeholder_prefix (substitute (mathPlaceholders ?st) (body_xml d))"
      by (rule sublist_order.order_trans)
    with c show False by simp
  qed
  from clean none have part: "body_ok d
        \<and> (\<forall>j \<in> set (body_tokens d). j < length (mathPlaceholders ?st))
        \<and> (\<forall>omml \<in> snd ` set (mathPlaceholders ?st). fragment_ok omml) \<longrightarrow>
        \<not> sublist placeholder_prefix (substitute (mathPlaceholders ?st) (body_xml d))
        \<and> (\<forall>tok \<in> fst ` set (mathPlaceholders ?st).
              \<not> sublist tok (substitute (mathPlaceholders ?st) (body_xml d)))"
    by blast
  from once have part1: "\<not> sublist placeholder_prefix input \<longrightarrow>
        (\<forall>tok \<in> fst ` set (mathPlaceholders ?st).
           length (filter (\<lambda>r. sublist tok (run_text r))
                     (concat (map children (paragraphs ?st)))) = 1)"
    by blast
  from export have part2: "mathPlaceholders ?st \<noteq> []
        \<and> readDocumentXml ext (loadAsync ext (toBlob ext (paragraphs ?st))) = Some documentXml
        \<and> documentXml \<noteq> [] \<longrightarrow>
        generateDocx render mathmlToOmml ext input
          = (generateAsync ext
               (writeDocumentXml ext (loadAsync ext (toBlob ext (paragraphs ?st)))
                  (substitute (mathPlaceholders ?st) documentXml)),
             [ToBlob, LoadAsync, ReadDocumentXml, WriteDocumentXml, GenerateAsync])"
    by blast
  show ?thesis
    apply (rule conjI, rule len)
    apply (rule conjI, rule keys)
    apply (rule conjI, rule dist)
    apply (rule conjI, rule part1)
    apply (rule conjI, rule part2)
    apply (rule part)
    done
qed

theorem C3_tokens_substituted_witness:
  "\<not> sublist placeholder_prefix ''a $x$ b $$y$$''
   \<and> mathPlaceholders (assemble (\<lambda>latex isBlock. Some latex)
         (\<lambda>mathml. Some (''<m:r>'' @ mathml @ ''</m:r>'')) ''a $x$ b $$y$$'')
       = [(''__MATH_PLACEHOLDER_0__'', ''<m:r>x</m:r>''),
          (''__MATH_PLACEHOLDER_1__'', ''<m:r>y</m:r>'')]
   \<and> paragraphs (assemble (\<lambda>latex isBlock. Some latex)
         (\<lambda>mathml. Some (''<m:r>'' @ mathml @ ''</m:r>'')) ''a $x$ b $$y$$'')
       = [\<lparr>children = [TextRun ''a '', TextRun ''__MATH_PLACEHOLDER_0__'', TextRun '' b ''],
           alignment = LEFT\<rparr>,
          \<lparr>children = [TextRun ''__MATH_PLACEHOLDER_1__''], alignment = CENTER\<rparr>]
   \<and> length (filter (\<lambda>r. sublist ''__MATH_PLACEHOLDER_1__'' (run_text r))
         [TextRun ''a '', TextRun ''__MATH_PLACEHOLDER_0__'', TextRun '' b '',
          TextRun ''__MATH_PLACEHOLDER_1__''])
       = 1
   \<and> distinct [''__MATH_PLACEHOLDER_0__'', ''__MATH_PLACEHOLDER_1__'']
   \<and> readDocumentXml example_externals
         (loadAsync example_externals
            (toBlob example_externals
               [\<lparr>children = [TextRun ''a '', TextRun ''__MATH_PLACEHOLDER_0__'', TextRun '' b ''],
                  alignment = LEFT\<rparr>,
                \<lparr>children = [TextRun ''__MATH_PLACEHOLDER_1__''], alignment = CENTER\<rparr>]))
       = Some (body_xml
           (Piece ''<w:p><w:r><w:t>a </w:t></w:r>''
              \<lparr>run_attrs = [], run_space = [], text_attrs = [], token_index = 0,
                 text_space = []\<rparr>
              (Piece ''<w:r><w:t> b </w:t></w:r></w:p><w:p>''
                 \<lparr>run_attrs = [], run_space = [], text_attrs = [], token_index = 1,
                    text_space = []\<rparr>
                 (Tail ''</w:p>''))))
   \<and> body_xml
         (Piece ''<w:p><w:r><w:t>a </w:t></w:r>''
            \<lparr>run_attrs = [], run_space = [], text_attrs = [], token_index = 0,
               text_space = []\<rparr>
            (Piece ''<w:r><w:t> b </w:t></w:r></w:p><w:p>''
               \<lparr>run_attrs = [], run_space = [], text_attrs = [], token_index = 1,
                  text_space = []\<rparr>
               (Tail ''</w:p>'')))
       = ''<w:p><w:r><w:t>a </w:t></w:r><w:r><w:t>__MATH_PLACEHOLDER_0__</w:t></w:r><w:r><w:t> b </w:t></w:r></w:p><w:p><w:r><w:t>__MATH_PLACEHOLDER_1__</w:t></w:r></w:p>''
   \<and> body_ok
         (Piece ''<w:p><w:r><w:t>a </w:t></w:r>''
            \<lparr>run_attrs = [], run_space = [], text_attrs = [], token_index = 0,
               text_space = []\<rparr>
            (Piece ''<w:r><w:t> b </w:t></w:r></w:p><w:p>''
               \<lparr>run_attrs = [], run_space = [], text_attrs = [], token_index = 1,
                  text_space = []\<rparr>
               (Tail ''</w:p>'')))
   \<and> body_tokens
         (Piece ''<w:p><w:r><w:t>a </w:t></w:r>''
            \<lparr>run_attrs = [], run_space = [], text_attrs = [], token_index = 0,
               text_space = []\<rparr>
            (Piece ''<w:r><w:t> b </w:t></w:r></w:p><w:p>''
               \<lparr>run_attrs = [], run_space = [], text_attrs = [], token_index = 1,
                  text_space = []\<rparr>
               (Tail ''</w:p>'')))
       = [0, 1]
   \<and> fragment_ok ''<m:r>x</m:r>'' \<and> fragment_ok ''<m:r>y</m:r>''
   \<and> generateDocx (\<lambda>latex isBlock. Some latex)
         (\<lambda>mathml. Some (''<m:r>'' @ mathml @ ''</m:r>'')) example_externals ''a $x$ b $$y$$''
       = (''<w:p><w:r><w:t>a </w:t></w:r><m:r>x</m:r><w:r><w:t> b </w:t></w:r></w:p><w:p><m:r>y</m:r></w:p>'',
          [ToBlob, LoadAsync, ReadDocumentXml, WriteDocumentXml, GenerateAsync])
   \<and> \<not> sublist placeholder_prefix
         ''<w:p><w:r><w:t>a </w:t></w:r><m:r>x</m:r><w:r><w:t> b </w:t></w:r></w:p><w:p><m:r>y</m:r></w:p>''
   \<and> \<not> sublist ''__MATH_PLACEHOLDER_0__''
         ''<w:p><w:r><w:t>a </w:t></w:r><m:r>x</m:r><w:r><w:t> b </w:t></w:r></w:p><w:p><m:r>y</m:r></w:p>''
   \<and> \<not> sublist ''__MATH_PLACEHOLDER_1__''
         ''<w:p><w:r><w:t>a </w:t></w:r><m:r>x</m:r><w:r><w:t> b </w:t></w:r></w:p><w:p><m:r>y</m:r></w:p>''"
proof -
  let ?render = "\<lambda>latex isBlock. Some latex :: string option"
  let ?bridge = "\<lambda>mathml. Some (''<m:r>'' @ mathml @ ''</m:r>'')"
  let ?st = "assemble ?render ?bridge ''a $x$ b $$y$$''"
  let ?d = "Piece ''<w:p><w:r><w:t>a </w:t></w:r>''
              \<lparr>run_attrs = [], run_space = [], text_attrs = [], token_index = 0,
                 text_space = []\<rparr>
              (Piece ''<w:r><w:t> b </w:t></w:r></w:p><w:p>''
                 \<lparr>run_attrs = [], run_space = [], text_attrs = [], token_index = 1,
                    text_space = []\<rparr>
                 (Tail ''</w:p>''))"
  let ?xml = "''<w:p><w:r><w:t>a </w:t></w:r><w:r><w:t>__MATH_PLACEHOLDER_0__</w:t></w:r><w:r><w:t> b </w:t></w:r></w:p><w:p><w:r><w:t>__MATH_PLACEHOLDER_1__</w:t></w:r></w:p>''"
  let ?out = "''<w:p><w:r><w:t>a </w:t></w:r><m:r>x</m:r><w:r><w:t> b </w:t></w:r></w:p><w:p><m:r>y</m:r></w:p>''"
  have h: "\<not> sublist placeholder_prefix ''a $x$ b $$y$$''" by code_simp
  have m: "mathPlaceholders ?st
             = [(''__MATH_PLACEHOLDER_0__'', ''<m:r>x</m:r>''),
                (''__MATH_PLACEHOLDER_1__'', ''<m:r>y</m:r>'')]"
    by code_simp
  have p: "paragraphs ?st
       = [\<lparr>children = [TextRun ''a '', TextRun ''__MATH_PLACEHOLDER_0__'', TextRun '' b ''],
           alignment = LEFT\<rparr>,
          \<lparr>children = [TextRun ''__MATH_PLACEHOLDER_1__''], alignment = CENTER\<rparr>]"
    by code_simp
  have x: "body_xml ?d = ?xml" by code_simp
  have b: "example_xml (paragraphs ?st) = ?xml" unfolding p by code_simp
  have e: "readDocumentXml example_externals
             (loadAsync example_externals (toBlob example_externals ps))
           = Some (example_xml ps)" for ps
    by (simp add: example_externals_def)
  have r: "readDocumentXml example_externals
             (loadAsync example_externals (toBlob example_externals (paragraphs ?st)))
           = Some (body_xml ?d)"
    by (simp only: e b x)
  have ne: "body_xml ?d \<noteq> []" unfolding x by simp
  have ok: "body_ok ?d" by code_simp
  have bt: "body_tokens ?d = [0, 1]" by simp
  have f: "fragment_ok ''<m:r>x</m:r>''" "fragment_ok ''<m:r>y</m:r>''" by code_simp+
  have s: "substitute
             [(''__MATH_PLACEHOLDER_0__'', ''<m:r>x</m:r>''),
              (''__MATH_PLACEHOLDER_1__'', ''<m:r>y</m:r>'')] ?xml = ?out"
    by code_simp
  have t: "''__MATH_PLACEHOLDER_0__'' \<in> fst ` set (mathPlaceholders ?st)"
    "''__MATH_PLACEHOLDER_1__'' \<in> fst ` set (mathPlaceholders ?st)"
    unfolding m by simp_all
  have ne_m: "mathPlaceholders ?st \<noteq> []" unfolding m by simp
  have bound: "\<forall>j \<in> set (body_tokens ?d). j < length (mathPlaceholders ?st)"
    unfolding bt m by simp
  have frag: "\<forall>omml \<in> snd ` set (mathPlaceholders ?st). fragment_ok omml"
    unfolding m using f by simp
  note inst = C3_tokens_distinct_one_run_substituted[where render = ?render
      and mathmlToOmml = ?bridge and input = "''a $x$ b $$y$$''" and ext = example_externals
      and documentXml = "body_xml ?d" and d = ?d]
  from inst have d: "distinct (map fst (mathPlaceholders ?st))" by blast
  from inst h t(2)
  have c: "length (filter (\<lambda>r. sublist ''__MATH_PLACEHOLDER_1__'' (run_text r))
         (concat (map children (paragraphs ?st)))) = 1"
    by blast
  from inst ne_m r ne
  have g: "generateDocx ?render ?bridge example_externals ''a $x$ b $$y$$''
          = (generateAsync example_externals
               (writeDocumentXml example_externals
                  (loadAsync example_externals (toBlob example_externals (paragraphs ?st)))
                  (substitute (mathPlaceholders ?st) (body_xml ?d))),
             [ToBlob, LoadAsync, ReadDocumentXml, WriteDocumentXml, GenerateAsync])"
    by blast
  from inst ok bound frag
  have n: "\<not> sublist placeholder_prefix (substitute (mathPlaceholders ?st) (body_xml ?d))"
    "\<forall>tok \<in> fst ` set (mathPlaceholders ?st).
        \<not> sublist tok (substitute (mathPlaceholders ?st) (body_xml ?d))"
    by blast+
  have out: "substitute (mathPlaceholders ?st) (body_xml ?d) = ?out"
    unfolding m x by (rule s)
  from d have 1: "distinct [''__MATH_PLACEHOLDER_0__'', ''__MATH_PLACEHOLDER_1__'']"
    unfolding m by simp
  from c have 2: "length (filter (\<lambda>r. sublist ''__MATH_PLACEHOLDER_1__'' (run_text r))
         [TextRun ''a '', TextRun ''__MATH_PLACEHOLDER_0__'', TextRun '' b '',
          TextRun ''__MATH_PLACEHOLDER_1__'']) = 1"
    unfolding p by simp
  from g have 3: "generateDocx ?render ?bridge example_externals ''a $x$ b $$y$$''
       = (?out, [ToBlob, LoadAsync, ReadDocumentXml, WriteDocumentXml, GenerateAsync])"
    unfolding out by (simp add: example_externals_def)
  from n(1) have 4: "\<not> sublist placeholder_prefix ?out" unfolding out .
  from n(2) t have 5: "\<not> sublist ''__MATH_PLACEHOLDER_0__'' ?out"
    "\<not> sublist ''__MATH_PLACEHOLDER_1__'' ?out"
    unfolding out by blast+
  from r have 6: "readDocumentXml example_externals
         (loadAsync example_externals
            (toBlob example_externals
               [\<lparr>children = [TextRun ''a '', TextRun ''__MATH_PLACEHOLDER_0__'', TextRun '' b ''],
                  alignment = LEFT\<rparr>,
                \<lparr>children = [TextRun ''__MATH_PLACEHOLDER_1__''], alignment = CENTER\<rparr>]))
       = Some (body_xml ?d)"
    unfolding p .
  show ?thesis
    apply (rule conjI, rule h)
    apply (rule conjI, rule m)
    apply (rule conjI, rule p)
    apply (rule conjI, rule 2)
    apply (rule conjI, rule 1)
    apply (rule conjI, rule 6)
    apply (rule conjI, rule x)
    apply (rule conjI, rule ok)
    apply (rule conjI, rule bt)
    apply (rule conjI, rule f(1))
    apply (rule conjI, rule f(2))
    apply (rule conjI, rule 3)
    apply (rule conjI, rule 4)
    apply (rule conjI, rule 5(1))
    apply (rule 5(2))
    done
qed

end
